theory Spec2Isabelle
  imports Complex_Main "HOL-Library.AList"
begin

section \<open>Python values shared by the three modules\<close>

text \<open>
  Numbers of the numpy arrays and of the graph weights are modelled as \<^typ>\<open>real\<close>.
  Every exception the modelled code can raise is a constructor of \<open>error\<close>; a function
  that can raise returns \<open>error + 'a\<close> with \<open>Inl\<close> for the exception.
\<close>

datatype error =
    IndexError
  | KeyError
  | TypeError
  | ValueError
  | AttributeError
  | UnboundLocalError

type_synonym matrix = "real list list"

text \<open>A \<open>for\<close> loop over a sequence whose body may raise: the first exception ends the loop.\<close>

fun for_each :: "'a list \<Rightarrow> ('a \<Rightarrow> 's \<Rightarrow> error + 's) \<Rightarrow> 's \<Rightarrow> error + 's" where
  "for_each [] body s = Inr s"
| "for_each (x # xs) body s =
     (case body x s of Inl e \<Rightarrow> Inl e | Inr s' \<Rightarrow> for_each xs body s')"

text \<open>\<open>a[i][j]\<close> and \<open>a[i][j] = v\<close> on a two-dimensional array, for indices from \<open>range\<close>.\<close>

definition mat_get :: "matrix \<Rightarrow> nat \<Rightarrow> nat \<Rightarrow> error + real" where
  "mat_get a i j =
     (if i < length a \<and> j < length (a ! i) then Inr (a ! i ! j) else Inl IndexError)"

definition mat_set :: "matrix \<Rightarrow> nat \<Rightarrow> nat \<Rightarrow> real \<Rightarrow> error + matrix" where
  "mat_set a i j v =
     (if i < length a \<and> j < length (a ! i) then Inr (a[i := (a ! i)[j := v]])
      else Inl IndexError)"

text \<open>\<open>np.sum(a[i])\<close>: the sum of row \<open>i\<close>.\<close>

definition row_sum :: "matrix \<Rightarrow> nat \<Rightarrow> error + real" where
  "row_sum a i = (if i < length a then Inr (sum_list (a ! i)) else Inl IndexError)"

text \<open>
  The shape of a two-dimensional array held as a list of rows; an array without rows
  has shape \<open>(0, 0)\<close> here.
\<close>

definition nrows :: "matrix \<Rightarrow> nat" where
  "nrows a = length a"

definition ncols :: "matrix \<Rightarrow> nat" where
  "ncols a = (case a of [] \<Rightarrow> 0 | r # _ \<Rightarrow> length r)"

definition square :: "nat \<Rightarrow> matrix \<Rightarrow> bool" where
  "square n a \<longleftrightarrow> length a = n \<and> list_all (\<lambda>r. length r = n) a"

definition symmetric :: "nat \<Rightarrow> matrix \<Rightarrow> bool" where
  "symmetric n a \<longleftrightarrow> (\<forall>i<n. \<forall>j<n. a ! i ! j = a ! j ! i)"

section \<open>applications/max\_cut.py: the value of a cut\<close>

text \<open>numpy broadcasting of one axis: equal lengths, or one of them \<open>1\<close>.\<close>

definition broadcast_dim :: "nat \<Rightarrow> nat \<Rightarrow> error + nat" where
  "broadcast_dim a b =
     (if a = b then Inr a else if a = 1 then Inr b else if b = 1 then Inr a
      else Inl ValueError)"

definition stretch :: "nat \<Rightarrow> 'a list \<Rightarrow> 'a list" where
  "stretch n xs = (if length xs = n then xs else replicate n (hd xs))"

text \<open>\<open>a * b\<close> on two-dimensional arrays: the elementwise product after broadcasting.\<close>

definition np_multiply :: "matrix \<Rightarrow> matrix \<Rightarrow> error + matrix" where
  "np_multiply a b =
     (case broadcast_dim (nrows a) (nrows b) of
        Inl e \<Rightarrow> Inl e
      | Inr r \<Rightarrow>
          (case broadcast_dim (ncols a) (ncols b) of
             Inl e \<Rightarrow> Inl e
           | Inr c \<Rightarrow>
               Inr (map2 (map2 (*))
                      (stretch r (map (stretch c) a))
                      (stretch r (map (stretch c) b)))))"

text \<open>\<open>np.outer(x, y)\<close> and \<open>np.sum\<close> over a whole two-dimensional array.\<close>

definition np_outer :: "real list \<Rightarrow> real list \<Rightarrow> matrix" where
  "np_outer x y = map (\<lambda>a. map (\<lambda>b. a * b) y) x"

definition np_sum :: "matrix \<Rightarrow> real" where
  "np_sum a = sum_list (map sum_list a)"

text \<open>
  \<open>MaxCut.max_cut_value(x, w)\<close>: \<open>X = np.outer(x, (1 - x))\<close>, then \<open>np.sum(w * X)\<close>.
  The method reads no field of the object.
\<close>

definition max_cut_value :: "real list \<Rightarrow> matrix \<Rightarrow> error + real" where
  "max_cut_value x w =
     (let X = np_outer x (map (\<lambda>a. 1 - a) x)
      in case np_multiply w X of Inl e \<Rightarrow> Inl e | Inr p \<Rightarrow> Inr (np_sum p))"

text \<open>A vector whose entries are all \<open>0\<close> or \<open>1\<close>.\<close>

definition binary :: "real list \<Rightarrow> bool" where
  "binary x \<longleftrightarrow> list_all (\<lambda>a. a = 0 \<or> a = 1) x"

section \<open>applications/common.py: the Ising matrix of a QUBO matrix\<close>

text \<open>Sequencing of steps that may raise: the first exception is the result.\<close>

definition then_do :: "error + 'a \<Rightarrow> ('a \<Rightarrow> error + 'b) \<Rightarrow> error + 'b" where
  "then_do r f = (case r of Inl e \<Rightarrow> Inl e | Inr v \<Rightarrow> f v)"

text \<open>\<open>np.zeros_like(a, dtype='float')\<close>: the shape of \<open>a\<close>, every entry zero.\<close>

definition zeros_like :: "matrix \<Rightarrow> matrix" where
  "zeros_like a = map (map (\<lambda>_. 0)) a"

text \<open>
  The body of the inner loop of \<open>get_ising_matrix\<close>: on the diagonal
  \<open>1.0 * true_divide(q[i][i], 2.0) + np.sum(q[i]) - q[i][i]\<close>, elsewhere
  \<open>1.0 * true_divide(q[i][j], 4.0)\<close>.
\<close>

definition ising_entry :: "matrix \<Rightarrow> nat \<Rightarrow> nat \<Rightarrow> matrix \<Rightarrow> error + matrix" where
  "ising_entry qubo_mat i j ising_mat =
     (if i = j then
        then_do (mat_get qubo_mat i i) (\<lambda>d.
        then_do (row_sum qubo_mat i) (\<lambda>s.
          mat_set ising_mat i i (1 * (d / 2) + s - d)))
      else
        then_do (mat_get qubo_mat i j) (\<lambda>q.
          mat_set ising_mat i j (1 * (q / 4))))"

definition get_ising_matrix :: "matrix \<Rightarrow> error + matrix" where
  "get_ising_matrix qubo_mat =
     (let ising_mat = zeros_like qubo_mat;
          mat_len = length qubo_mat
      in for_each [0..<mat_len]
           (\<lambda>i. for_each [0..<mat_len] (\<lambda>j. ising_entry qubo_mat i j)) ising_mat)"

text \<open>
  The two energies the conversion relates. \<open>qubo_energy\<close> is \<open>x\<^sup>T Q x\<close>;
  \<open>ising_energy\<close> reads the fields \<open>h\<close> off the diagonal and the couplings \<open>J\<close>
  off the rest of a matrix \<open>m\<close> and sums \<open>h\<^sub>i s\<^sub>i\<close> and \<open>J\<^sub>i\<^sub>j s\<^sub>i s\<^sub>j\<close>, \<open>i \<noteq> j\<close>.
\<close>

definition qubo_energy :: "matrix \<Rightarrow> real list \<Rightarrow> real" where
  "qubo_energy q x =
     (\<Sum>i\<leftarrow>[0..<length x]. \<Sum>j\<leftarrow>[0..<length x]. q ! i ! j * x ! i * x ! j)"

definition spins :: "real list \<Rightarrow> real list" where
  "spins x = map (\<lambda>a. 2 * a - 1) x"

definition ising_energy :: "matrix \<Rightarrow> real list \<Rightarrow> real" where
  "ising_energy m s =
     (\<Sum>i\<leftarrow>[0..<length s]. m ! i ! i * s ! i)
     + (\<Sum>i\<leftarrow>[0..<length s]. \<Sum>j\<leftarrow>[0..<length s].
          if i \<noteq> j then m ! i ! j * s ! i * s ! j else 0)"

section \<open>The networkx graph\<close>

text \<open>
  An undirected \<open>nx.Graph\<close> as networkx stores it: \<open>_node\<close> maps each node to its
  attributes and \<open>_adj\<close> maps each node to its neighbours, each neighbour to the
  attributes of the edge. Both are dictionaries, so insertion order is kept. Of the
  attributes only \<open>weight\<close> is modelled: \<open>None\<close> is a node or an edge without it.
\<close>

record 'n graph =
  node_attr :: "('n \<times> real option) list"
  adj :: "('n \<times> ('n \<times> real option) list) list"

definition empty_graph :: "'n graph" where
  "empty_graph = \<lparr>node_attr = [], adj = []\<rparr>"

definition has_node :: "'n graph \<Rightarrow> 'n \<Rightarrow> bool" where
  "has_node g n \<longleftrightarrow> map_of (node_attr g) n \<noteq> None"

text \<open>\<open>G.add_node(n, weight=w)\<close>.\<close>

definition add_node :: "'n \<Rightarrow> real \<Rightarrow> 'n graph \<Rightarrow> 'n graph" where
  "add_node n w g =
     (if has_node g n then g\<lparr>node_attr := AList.update n (Some w) (node_attr g)\<rparr>
      else g\<lparr>adj := AList.update n [] (adj g),
             node_attr := AList.update n (Some w) (node_attr g)\<rparr>)"

text \<open>The start of \<open>G.add_edge\<close>: an endpoint that is not a node yet becomes one, without attributes.\<close>

definition touch_node :: "'n \<Rightarrow> 'n graph \<Rightarrow> 'n graph" where
  "touch_node n g =
     (if has_node g n then g
      else g\<lparr>adj := AList.update n [] (adj g),
             node_attr := AList.update n None (node_attr g)\<rparr>)"

text \<open>\<open>G.add_edge(u, v, weight=w)\<close>: the edge is stored under both endpoints.\<close>

definition add_edge :: "'n \<Rightarrow> 'n \<Rightarrow> real \<Rightarrow> 'n graph \<Rightarrow> 'n graph" where
  "add_edge u v w g =
     (let g1 = touch_node v (touch_node u g);
          a1 = AList.map_entry u (AList.update v (Some w)) (adj g1);
          a2 = AList.map_entry v (AList.update u (Some w)) a1
      in g1\<lparr>adj := a2\<rparr>)"

text \<open>\<open>list(G.nodes)\<close>, \<open>G.has_edge(u, v)\<close> and the attributes of an edge.\<close>

definition nodes :: "'n graph \<Rightarrow> 'n list" where
  "nodes g = map fst (node_attr g)"

definition edge_data :: "'n graph \<Rightarrow> 'n \<Rightarrow> 'n \<Rightarrow> real option option" where
  "edge_data g u v = (case map_of (adj g) u of None \<Rightarrow> None | Some nbrs \<Rightarrow> map_of nbrs v)"

definition has_edge :: "'n graph \<Rightarrow> 'n \<Rightarrow> 'n \<Rightarrow> bool" where
  "has_edge g u v \<longleftrightarrow> edge_data g u v \<noteq> None"

text \<open>
  Iterating \<open>G.edges(data='weight')\<close>: for each node in order, each neighbour that has
  not been visited as a node before; an edge is reported once, a self-loop included.
\<close>

fun edges_from :: "'n list \<Rightarrow> ('n \<times> ('n \<times> real option) list) list \<Rightarrow> (('n \<times> 'n) \<times> real option) list" where
  "edges_from seen [] = []"
| "edges_from seen ((n, nbrs) # rest) =
     map (\<lambda>(nbr, d). ((n, nbr), d)) (filter (\<lambda>(nbr, d). nbr \<notin> set seen) nbrs)
     @ edges_from (n # seen) rest"

definition edges :: "'n graph \<Rightarrow> (('n \<times> 'n) \<times> real option) list" where
  "edges g = edges_from [] (adj g)"

text \<open>
  \<open>nx.get_node_attributes(G, 'weight')\<close> and \<open>nx.get_edge_attributes(G, 'weight')\<close>:
  the dictionaries of the nodes and edges that carry the attribute.
\<close>

definition get_node_attributes :: "'n graph \<Rightarrow> ('n \<times> real) list" where
  "get_node_attributes g = concat (map (\<lambda>(n, d). case d of None \<Rightarrow> [] | Some w \<Rightarrow> [(n, w)]) (node_attr g))"

definition get_edge_attributes :: "'n graph \<Rightarrow> (('n \<times> 'n) \<times> real) list" where
  "get_edge_attributes g = concat (map (\<lambda>(e, d). case d of None \<Rightarrow> [] | Some w \<Rightarrow> [(e, w)]) (edges g))"

text \<open>
  \<open>nx.adjacency_matrix(G).A\<close>: rows and columns in the order of \<open>G.nodes\<close>; an entry is
  the weight of the edge, \<open>1\<close> for an edge without weight and \<open>0\<close> for no edge.
\<close>

definition adjacency_matrix :: "'n graph \<Rightarrow> matrix" where
  "adjacency_matrix g =
     map (\<lambda>u. map (\<lambda>v. case edge_data g u v of
                          None \<Rightarrow> 0 | Some None \<Rightarrow> 1 | Some (Some w) \<Rightarrow> w) (nodes g)) (nodes g)"

section \<open>applications/common.py: the weighted graph of a matrix\<close>

text \<open>
  \<open>node_map\<close> is a \<open>defaultdict(int)\<close>: without a graph it maps \<open>i\<close> to \<open>i\<close> for
  \<open>i < cnt\<close>; with one it maps \<open>i\<close> to the \<open>i\<close>-th node, and a missing key reads as \<open>0\<close>.
\<close>

definition node_map :: "nat \<Rightarrow> nat graph option \<Rightarrow> nat \<Rightarrow> nat" where
  "node_map cnt graph i =
     (case graph of
        None \<Rightarrow> (if i < cnt then i else 0)
      | Some g \<Rightarrow> (if i < length (nodes g) then nodes g ! i else 0))"

definition weights_entry :: "matrix \<Rightarrow> (nat \<Rightarrow> nat) \<Rightarrow> nat \<Rightarrow> nat \<Rightarrow> nat graph \<Rightarrow> error + nat graph" where
  "weights_entry ising_mat nm i j g =
     (if i = j then
        then_do (mat_get ising_mat i i) (\<lambda>w. Inr (add_node (nm i) w g))
      else
        then_do (mat_get ising_mat i j) (\<lambda>w.
          if \<bar>w - 0\<bar> \<le> 1 / 10 ^ 8 then Inr g
          else Inr (add_edge (nm i) (nm j) w g)))"

definition get_weights_graph :: "matrix \<Rightarrow> nat graph option \<Rightarrow> error + nat graph" where
  "get_weights_graph ising_mat graph =
     (let cnt = length ising_mat;
          nm = node_map cnt graph
      in for_each [0..<cnt]
           (\<lambda>i. for_each [0..<cnt] (\<lambda>j. weights_entry ising_mat nm i j)) empty_graph)"

section \<open>applications/max\_cut.py: the MaxCut object\<close>

record 'n MaxCut =
  node_num :: nat
  graph :: "'n graph"
  qmatrix :: "matrix option"

text \<open>
  \<open>update_random_graph\<close> stores \<open>node_num\<close> and then the graph that
  \<open>random_regular_graph\<close> returns. The generator draws random numbers and may raise,
  so its outcome \<open>gen\<close> is an argument here; when it raises, \<open>_node_num\<close> has already
  been stored.
\<close>

definition update_random_graph :: "nat \<Rightarrow> error + 'n graph \<Rightarrow> 'n MaxCut \<Rightarrow> (error + unit) \<times> 'n MaxCut" where
  "update_random_graph n gen mc =
     (case gen of
        Inl e \<Rightarrow> (Inl e, mc\<lparr>node_num := n\<rparr>)
      | Inr g \<Rightarrow> (Inr (), mc\<lparr>node_num := n, graph := g\<rparr>))"

text \<open>The body of the loop of \<open>get_Qmatrix\<close>: \<open>q[i][i] = - (np.sum(a[i]) - a[i][i])\<close>.\<close>

definition qubo_diag :: "matrix \<Rightarrow> nat \<Rightarrow> matrix \<Rightarrow> error + matrix" where
  "qubo_diag adj_mat i qubo_mat =
     then_do (row_sum adj_mat i) (\<lambda>s.
     then_do (mat_get adj_mat i i) (\<lambda>d.
       mat_set qubo_mat i i (- (s - d))))"

definition get_Qmatrix :: "'n MaxCut \<Rightarrow> error + matrix" where
  "get_Qmatrix mc =
     (let adj_mat = adjacency_matrix (graph mc);
          qubo_mat = adj_mat
      in for_each [0..<node_num mc] (qubo_diag adj_mat) qubo_mat)"

text \<open>
  \<open>run\<close>: when \<open>_qmatrix\<close> is \<open>None\<close> the result of \<open>get_Qmatrix\<close> is stored in
  it; the graph returned is built from the stored matrix. When \<open>get_Qmatrix\<close> raises,
  nothing has been stored.
\<close>

definition run :: "'n MaxCut \<Rightarrow> (error + nat graph) \<times> 'n MaxCut" where
  "run mc =
     (case (case qmatrix mc of None \<Rightarrow> get_Qmatrix mc | Some q \<Rightarrow> Inr q) of
        Inl e \<Rightarrow> (Inl e, mc)
      | Inr qubo_mat \<Rightarrow>
          (then_do (get_ising_matrix qubo_mat) (\<lambda>ising_mat.
             get_weights_graph ising_mat None),
           mc\<lparr>qmatrix := Some qubo_mat\<rparr>))"

section \<open>applications/common.py: the state of least Ising energy\<close>

text \<open>\<open>xs[i]\<close> on a Python list: a negative index counts from the end.\<close>

definition py_index :: "'a list \<Rightarrow> int \<Rightarrow> error + 'a" where
  "py_index xs i =
     (let n = int (length xs); j = (if i < 0 then n + i else i)
      in if 0 \<le> j \<and> j < n then Inr (xs ! nat j) else Inl IndexError)"

text \<open>\<open>int(c)\<close> on a one-character string: a decimal digit, or \<open>ValueError\<close>.\<close>

definition int_of_char :: "char \<Rightarrow> error + int" where
  "int_of_char c =
     (let n = (of_char c :: nat)
      in if 48 \<le> n \<and> n \<le> 57 then Inr (int n - 48) else Inl ValueError)"

text \<open>\<open>[int(key[i]) for i in range(len(key))]\<close>.\<close>

fun int_list :: "string \<Rightarrow> error + int list" where
  "int_list [] = Inr []"
| "int_list (c # cs) =
     then_do (int_of_char c) (\<lambda>d. then_do (int_list cs) (\<lambda>ds. Inr (d # ds)))"

text \<open>The list \<open>tw\<close>: \<open>-1\<close> for the character \<open>0\<close>, \<open>1\<close> for any other.\<close>

definition spin_list :: "string \<Rightarrow> real list" where
  "spin_list key = map (\<lambda>c. if c = CHR ''0'' then - 1 else 1) key"

text \<open>The two inner loops that add up \<open>tmp_h\<close> for one key.\<close>

definition node_term :: "real list \<Rightarrow> int \<times> real \<Rightarrow> real \<Rightarrow> error + real" where
  "node_term tw nw tmp_h =
     then_do (py_index tw (fst nw)) (\<lambda>s. Inr (tmp_h + snd nw * s))"

definition edge_term :: "real list \<Rightarrow> (int \<times> int) \<times> real \<Rightarrow> real \<Rightarrow> error + real" where
  "edge_term tw ew tmp_h =
     (if fst (fst ew) = snd (fst ew) then Inr tmp_h
      else then_do (py_index tw (fst (fst ew))) (\<lambda>s0.
           then_do (py_index tw (snd (fst ew))) (\<lambda>s1.
             Inr (tmp_h + snd ew * s0 * s1))))"

definition key_energy :: "int graph \<Rightarrow> string \<Rightarrow> error + real" where
  "key_energy ising_g key =
     (let tw = spin_list key
      in then_do (for_each (get_node_attributes ising_g) (node_term tw) 0)
           (for_each (get_edge_attributes ising_g) (edge_term tw)))"

text \<open>
  One pass of the outer loop: the state is \<open>min_h\<close> and \<open>res_state\<close>, the latter
  \<open>None\<close> while the variable is unbound.
\<close>

definition small_step :: "int graph \<Rightarrow> string \<times> 'v \<Rightarrow> real \<times> int list option \<Rightarrow> error + real \<times> int list option" where
  "small_step ising_g kv st =
     then_do (key_energy ising_g (fst kv)) (\<lambda>tmp_h.
       if fst st > tmp_h then
         then_do (int_list (fst kv)) (\<lambda>r. Inr (tmp_h, Some r))
       else Inr st)"

definition get_most_small_ising :: "(string \<times> 'v) list \<Rightarrow> int graph \<Rightarrow> error + int list" where
  "get_most_small_ising state_count ising_g =
     then_do (for_each state_count (small_step ising_g) (999999, None)) (\<lambda>st.
       case snd st of None \<Rightarrow> Inl UnboundLocalError | Some r \<Rightarrow> Inr r)"

section \<open>backends/circuitbytensor.py: the circuit evaluator\<close>

text \<open>
  The circuit handed to quimb: the number of qubits and the gates in the order of the
  \<open>apply_gate\<close> calls.
\<close>

datatype gate =
    H nat
  | RZ real nat
  | RZZ real nat nat
  | RX real nat

record circuit =
  num_qubits :: nat
  gates :: "gate list"

datatype observable = PauliZ | PauliZZ

text \<open>
  An element of the original graph: a node (an \<open>int\<close>) or an edge (a pair of nodes).
\<close>

datatype element = ENode int | EEdge int int

record CircuitByTensor =
  p :: "nat option"
  nodes_weight :: "(int \<rightharpoonup> real) option"
  edges_weight :: "(int \<times> int \<rightharpoonup> real) option"
  is_parallel :: bool
  opt :: string
  element_to_graph :: "(element \<times> int graph) list option"
  pargs :: "real list option"
  expectation_path :: "real list"

text \<open>\<open>__init__\<close>: \<open>is_parallel=None\<close> becomes \<open>False\<close>.\<close>

definition init :: "(int \<rightharpoonup> real) option \<Rightarrow> (int \<times> int \<rightharpoonup> real) option \<Rightarrow> string \<Rightarrow> bool option \<Rightarrow> CircuitByTensor" where
  "init nw ew contract_opt par =
     \<lparr>p = None, nodes_weight = nw, edges_weight = ew,
      is_parallel = (case par of None \<Rightarrow> False | Some b \<Rightarrow> b),
      opt = contract_opt, element_to_graph = None, pargs = None, expectation_path = []\<rparr>"

text \<open>Subscripting a weight table: \<open>None\<close> is not subscriptable, a missing key raises.\<close>

definition lookup :: "('k \<rightharpoonup> real) option \<Rightarrow> 'k \<Rightarrow> error + real" where
  "lookup tbl k =
     (case tbl of
        None \<Rightarrow> Inl TypeError
      | Some m \<Rightarrow> (case m k of None \<Rightarrow> Inl KeyError | Some w \<Rightarrow> Inr w))"

text \<open>\<open>xs[k]\<close> for \<open>k\<close> from \<open>range\<close>.\<close>

definition nth_checked :: "'a list \<Rightarrow> nat \<Rightarrow> error + 'a" where
  "nth_checked xs k = (if k < length xs then Inr (xs ! k) else Inl IndexError)"

text \<open>
  \<open>node_to_qubit\<close> is a \<open>defaultdict(int)\<close> filled with \<open>node_list[i] \<mapsto> i\<close>: a later
  assignment wins and a missing key reads as \<open>0\<close>.
\<close>

definition node_to_qubit :: "int list \<Rightarrow> int \<Rightarrow> nat" where
  "node_to_qubit node_list nd =
     (case map_of (rev (zip node_list [0..<length node_list])) nd of
        None \<Rightarrow> 0 | Some i \<Rightarrow> i)"

text \<open>The three inner loops of layer \<open>k\<close>; the state is the list of gates applied so far.\<close>

definition rz_step :: "CircuitByTensor \<Rightarrow> real list \<Rightarrow> nat \<Rightarrow> (int \<Rightarrow> nat) \<Rightarrow> int \<Rightarrow> gate list \<Rightarrow> error + gate list" where
  "rz_step self gamma_list k n2q nd gs =
     (let u = n2q nd;
          gs1 = (if k = 0 then gs @ [H u] else gs)
      in then_do (nth_checked gamma_list k) (\<lambda>g.
         then_do (lookup (nodes_weight self) nd) (\<lambda>w.
           Inr (gs1 @ [RZ (2 * g * w) u]))))"

definition rzz_step :: "CircuitByTensor \<Rightarrow> real list \<Rightarrow> nat \<Rightarrow> (int \<Rightarrow> nat) \<Rightarrow> (int \<times> int) \<times> real option \<Rightarrow> gate list \<Rightarrow> error + gate list" where
  "rzz_step self gamma_list k n2q edge gs =
     (let u = n2q (fst (fst edge)); v = n2q (snd (fst edge))
      in if u = v then Inr gs
         else then_do (nth_checked gamma_list k) (\<lambda>g.
              then_do (lookup (edges_weight self) (fst (fst edge), snd (fst edge))) (\<lambda>w.
                Inr (gs @ [RZZ (- g * w) u v]))))"

definition rx_step :: "real list \<Rightarrow> nat \<Rightarrow> (int \<Rightarrow> nat) \<Rightarrow> int \<Rightarrow> gate list \<Rightarrow> error + gate list" where
  "rx_step beta_list k n2q nd gs =
     then_do (nth_checked beta_list k) (\<lambda>b. Inr (gs @ [RX (2 * b) (n2q nd)]))"

definition layer :: "CircuitByTensor \<Rightarrow> int graph \<Rightarrow> real list \<Rightarrow> real list \<Rightarrow> (int \<Rightarrow> nat) \<Rightarrow> nat \<Rightarrow> gate list \<Rightarrow> error + gate list" where
  "layer self g gamma_list beta_list n2q k gs =
     then_do (for_each (nodes g) (rz_step self gamma_list k n2q) gs) (\<lambda>gs1.
     then_do (for_each (edges g) (rzz_step self gamma_list k n2q) gs1) (\<lambda>gs2.
       for_each (nodes g) (rx_step beta_list k n2q) gs2))"

text \<open>The circuit \<open>get_expectation\<close> builds before it asks for the local expectation.\<close>

definition build_circuit :: "CircuitByTensor \<Rightarrow> int graph \<Rightarrow> error + circuit" where
  "build_circuit self g =
     (case pargs self of
        None \<Rightarrow> Inl TypeError
      | Some pa \<Rightarrow>
          (case p self of
             None \<Rightarrow> Inl TypeError
           | Some pp \<Rightarrow>
               (let n2q = node_to_qubit (nodes g);
                    gamma_list = take pp pa;
                    beta_list = drop pp pa
                in then_do (for_each [0..<pp] (layer self g gamma_list beta_list n2q) [])
                     (\<lambda>gs. Inr \<lparr>num_qubits = length (nodes g), gates = gs\<rparr>))))"

text \<open>
  \<open>get_expectation\<close>. The contraction \<open>circ.local_expectation(G, where, optimize)\<close> is
  quimb's; it is the argument \<open>le\<close>, a function of the optimiser name, the circuit, the
  observable and the qubits measured.
\<close>

definition get_expectation :: "(string \<Rightarrow> circuit \<Rightarrow> observable \<Rightarrow> nat list \<Rightarrow> error + complex) \<Rightarrow> CircuitByTensor \<Rightarrow> element \<times> int graph \<Rightarrow> error + real" where
  "get_expectation le self element_graph =
     (let original_e = fst element_graph;
          g = snd element_graph;
          n2q = node_to_qubit (nodes g)
      in then_do (build_circuit self g) (\<lambda>circ.
           case original_e of
             ENode nd \<Rightarrow>
               then_do (lookup (nodes_weight self) nd) (\<lambda>weight.
               then_do (le (opt self) circ PauliZ [n2q nd]) (\<lambda>exp_res.
                 Inr (Re exp_res * weight)))
           | EEdge e0 e1 \<Rightarrow>
               then_do (lookup (edges_weight self) (e0, e1)) (\<lambda>weight.
               then_do (le (opt self) circ PauliZZ [n2q e0, n2q e1]) (\<lambda>exp_res.
                 Inr (Re exp_res * weight)))))"

text \<open>
  What the two calculations change outside the object: the five thread-count variables
  of \<open>os.environ\<close> and the totals printed.
\<close>

record world =
  environ :: "(string \<times> string) list"
  printed :: "real list"

fun str_nat :: "nat \<Rightarrow> string" where
  "str_nat n =
     (if n < 10 then [char_of (48 + n)]
      else str_nat (n div 10) @ [char_of (48 + n mod 10)])"

definition set_threads :: "nat \<Rightarrow> world \<Rightarrow> world" where
  "set_threads cpu_num w =
     w\<lparr>environ :=
        AList.update ''NUMEXPR_NUM_THREADS'' (str_nat cpu_num)
       (AList.update ''VECLIB_MAXIMUM_THREADS'' (str_nat cpu_num)
       (AList.update ''MKL_NUM_THREADS'' (str_nat cpu_num)
       (AList.update ''OPENBLAS_NUM_THREADS'' (str_nat cpu_num)
       (AList.update ''OMP_NUM_THREADS'' (str_nat cpu_num) (environ w)))))\<rparr>"

text \<open>The end of both calculations: print the total, append it to the path, return it.\<close>

definition record_total :: "real \<Rightarrow> CircuitByTensor \<Rightarrow> world \<Rightarrow> (error + real) \<times> CircuitByTensor \<times> world" where
  "record_total res self w =
     (Inr res,
      self\<lparr>expectation_path := expectation_path self @ [res]\<rparr>,
      w\<lparr>printed := printed w @ [res]\<rparr>)"

text \<open>
  \<open>expectation_calculation_serial\<close>; \<open>cpu_count\<close> is the number the operating system
  reports. The loop adds the expectations to \<open>res\<close>, starting from \<open>0\<close>.
\<close>

definition expectation_calculation_serial :: "nat \<Rightarrow> (string \<Rightarrow> circuit \<Rightarrow> observable \<Rightarrow> nat list \<Rightarrow> error + complex) \<Rightarrow> CircuitByTensor \<Rightarrow> world \<Rightarrow> (error + real) \<times> CircuitByTensor \<times> world" where
  "expectation_calculation_serial cpu_count le self w =
     (let w1 = set_threads cpu_count w
      in case element_to_graph self of
           None \<Rightarrow> (Inl AttributeError, self, w1)
         | Some items \<Rightarrow>
             (case for_each items
                     (\<lambda>item res. then_do (get_expectation le self item) (\<lambda>v. Inr (res + v))) 0 of
                Inl e \<Rightarrow> (Inl e, self, w1)
              | Inr res \<Rightarrow> record_total res self w1))"

text \<open>
  \<open>expectation_calculation_parallel\<close>: \<open>pool.map\<close> returns the results in the order of
  the items, or raises the exception of the worker that failed first; which failure
  that is depends on the scheduling, so \<open>first_failure\<close> chooses among them. \<open>sum\<close> adds
  from the left, starting from \<open>0\<close>.
\<close>

definition expectation_calculation_parallel :: "(error list \<Rightarrow> error) \<Rightarrow> (string \<Rightarrow> circuit \<Rightarrow> observable \<Rightarrow> nat list \<Rightarrow> error + complex) \<Rightarrow> CircuitByTensor \<Rightarrow> world \<Rightarrow> (error + real) \<times> CircuitByTensor \<times> world" where
  "expectation_calculation_parallel first_failure le self w =
     (let w1 = set_threads 1 w
      in case element_to_graph self of
           None \<Rightarrow> (Inl AttributeError, self, w1)
         | Some items \<Rightarrow>
             (let circ_res = map (get_expectation le self) items
              in if list_all (\<lambda>r. \<not> isl r) circ_res
                 then record_total (foldl (+) 0 (map projr circ_res)) self w1
                 else (Inl (first_failure (map projl (filter isl circ_res))), self, w1)))"

definition expectation_calculation :: "nat \<Rightarrow> (error list \<Rightarrow> error) \<Rightarrow> (string \<Rightarrow> circuit \<Rightarrow> observable \<Rightarrow> nat list \<Rightarrow> error + complex) \<Rightarrow> CircuitByTensor \<Rightarrow> world \<Rightarrow> (error + real) \<times> CircuitByTensor \<times> world" where
  "expectation_calculation cpu_count first_failure le self w =
     (if is_parallel self then expectation_calculation_parallel first_failure le self w
      else expectation_calculation_serial cpu_count le self w)"

section \<open>Auxiliary definitions for the statements\<close>

text \<open>The diagonal entry that \<open>get_Qmatrix\<close> writes into row \<open>i\<close>.\<close>

definition qubo_diag_value :: "matrix \<Rightarrow> nat \<Rightarrow> real" where
  "qubo_diag_value a i = - (sum_list (a ! i) - a ! i ! i)"

text \<open>The outcome of a calculation as an optional total: \<open>None\<close> when it raised.\<close>

definition total_of :: "error + real \<Rightarrow> real option" where
  "total_of r = (case r of Inl _ \<Rightarrow> None | Inr v \<Rightarrow> Some v)"

text \<open>
  The gates of layer \<open>k\<close> in closed form, for weight tables \<open>nw\<close> and \<open>ew\<close>, parameters
  \<open>pa\<close> (the first \<open>pp\<close> are the \<open>gamma\<close>s, the rest the \<open>beta\<close>s) and the qubit \<open>q nd\<close> of
  each node. \<open>built_layer\<close> is the order of the \<open>apply_gate\<close> calls, where the first loop
  applies \<open>H\<close> and \<open>rz\<close> node by node; \<open>staged_layer\<close> applies all \<open>H\<close> first.
\<close>

definition h_gates :: "(int \<Rightarrow> nat) \<Rightarrow> nat \<Rightarrow> int list \<Rightarrow> gate list" where
  "h_gates q k ns = (if k = 0 then map (\<lambda>nd. H (q nd)) ns else [])"

definition rz_gates :: "(int \<rightharpoonup> real) \<Rightarrow> real list \<Rightarrow> (int \<Rightarrow> nat) \<Rightarrow> nat \<Rightarrow> int list \<Rightarrow> gate list" where
  "rz_gates nw pa q k ns = map (\<lambda>nd. RZ (2 * pa ! k * the (nw nd)) (q nd)) ns"

definition node_gates :: "(int \<rightharpoonup> real) \<Rightarrow> real list \<Rightarrow> (int \<Rightarrow> nat) \<Rightarrow> nat \<Rightarrow> int list \<Rightarrow> gate list" where
  "node_gates nw pa q k ns =
     concat (map (\<lambda>nd. (if k = 0 then [H (q nd)] else [])
                        @ [RZ (2 * pa ! k * the (nw nd)) (q nd)]) ns)"

definition rzz_gates :: "(int \<times> int \<rightharpoonup> real) \<Rightarrow> real list \<Rightarrow> (int \<Rightarrow> nat) \<Rightarrow> nat \<Rightarrow> (int \<times> int) list \<Rightarrow> gate list" where
  "rzz_gates ew pa q k es =
     concat (map (\<lambda>e. if q (fst e) = q (snd e) then []
                       else [RZZ (- pa ! k * the (ew e)) (q (fst e)) (q (snd e))]) es)"

definition rx_gates :: "real list \<Rightarrow> nat \<Rightarrow> (int \<Rightarrow> nat) \<Rightarrow> nat \<Rightarrow> int list \<Rightarrow> gate list" where
  "rx_gates pa pp q k ns = map (\<lambda>nd. RX (2 * pa ! (pp + k)) (q nd)) ns"

definition built_layer :: "(int \<rightharpoonup> real) \<Rightarrow> (int \<times> int \<rightharpoonup> real) \<Rightarrow> real list \<Rightarrow> nat \<Rightarrow> int graph \<Rightarrow> nat \<Rightarrow> gate list" where
  "built_layer nw ew pa pp g k =
     (let q = node_to_qubit (nodes g)
      in node_gates nw pa q k (nodes g)
         @ rzz_gates ew pa q k (map fst (edges g))
         @ rx_gates pa pp q k (nodes g))"

definition staged_layer :: "(int \<rightharpoonup> real) \<Rightarrow> (int \<times> int \<rightharpoonup> real) \<Rightarrow> real list \<Rightarrow> nat \<Rightarrow> int graph \<Rightarrow> nat \<Rightarrow> gate list" where
  "staged_layer nw ew pa pp g k =
     (let q = node_to_qubit (nodes g)
      in h_gates q k (nodes g)
         @ rz_gates nw pa q k (nodes g)
         @ rzz_gates ew pa q k (map fst (edges g))
         @ rx_gates pa pp q k (nodes g))"

text \<open>
  Two gate lists describe the same circuit when one is reached from the other by
  exchanging neighbouring gates that act on different qubits.
\<close>

fun qubits_of :: "gate \<Rightarrow> nat set" where
  "qubits_of (H u) = {u}"
| "qubits_of (RZ _ u) = {u}"
| "qubits_of (RZZ _ u v) = {u, v}"
| "qubits_of (RX _ u) = {u}"

inductive reorder :: "gate list \<Rightarrow> gate list \<Rightarrow> bool" where
  same: "reorder gs gs"
| swap: "qubits_of a \<inter> qubits_of b = {} \<Longrightarrow> reorder (xs @ a # b # ys) (xs @ b # a # ys)"
| step: "reorder gs hs \<Longrightarrow> reorder hs ks \<Longrightarrow> reorder gs ks"

text \<open>
  The Ising energy of a key in closed form: the spin of node \<open>nd\<close> is \<open>-1\<close> when the
  character at position \<open>nd\<close> is \<open>0\<close> and \<open>1\<close> otherwise; every weighted node contributes
  its weight times its spin and every weighted edge that is not a self-loop its weight
  times the spins of its endpoints.
\<close>

definition in_range :: "string \<Rightarrow> int \<Rightarrow> bool" where
  "in_range key nd \<longleftrightarrow> - int (length key) \<le> nd \<and> nd < int (length key)"

definition indexes :: "string \<Rightarrow> int graph \<Rightarrow> bool" where
  "indexes key g \<longleftrightarrow>
     list_all (in_range key) (nodes g)
     \<and> list_all (\<lambda>e. in_range key (fst (fst e)) \<and> in_range key (snd (fst e))) (edges g)"

definition bitstring :: "string \<Rightarrow> bool" where
  "bitstring key \<longleftrightarrow> list_all (\<lambda>c. c = CHR ''0'' \<or> c = CHR ''1'') key"

definition spin :: "string \<Rightarrow> int \<Rightarrow> real" where
  "spin key nd =
     (let j = (if nd < 0 then int (length key) + nd else nd)
      in if key ! nat j = CHR ''0'' then - 1 else 1)"

definition energy :: "int graph \<Rightarrow> string \<Rightarrow> real" where
  "energy g key =
     (\<Sum>nw\<leftarrow>get_node_attributes g. snd nw * spin key (fst nw))
     + (\<Sum>ew\<leftarrow>get_edge_attributes g.
          if fst (fst ew) = snd (fst ew) then 0
          else snd ew * spin key (fst (fst ew)) * spin key (snd (fst ew)))"

definition bits :: "string \<Rightarrow> int list" where
  "bits key = map (\<lambda>c. if c = CHR ''0'' then 0 else 1) key"

text \<open>
  Position \<open>i\<close> holds the first key of least energy: no key has less energy and every
  earlier key has more.
\<close>

definition first_min :: "int graph \<Rightarrow> (string \<times> 'v) list \<Rightarrow> nat \<Rightarrow> bool" where
  "first_min g kvs i \<longleftrightarrow>
     i < length kvs
     \<and> (\<forall>j<length kvs. energy g (fst (kvs ! i)) \<le> energy g (fst (kvs ! j)))
     \<and> (\<forall>j<i. energy g (fst (kvs ! i)) < energy g (fst (kvs ! j)))"

text \<open>
  The consistency networkx keeps between \<open>_node\<close> and \<open>_adj\<close>: both have the same keys,
  and no dictionary holds a key twice.
\<close>

definition graph_ok :: "'n graph \<Rightarrow> bool" where
  "graph_ok g \<longleftrightarrow>
     distinct (map fst (node_attr g))
     \<and> distinct (map fst (adj g))
     \<and> fst ` set (adj g) = fst ` set (node_attr g)
     \<and> list_all (\<lambda>p. distinct (map fst (snd p))) (adj g)"

text \<open>
  Entry \<open>(i, j)\<close> of \<open>m\<close> makes an edge: it is off the diagonal and not within \<open>1e-8\<close> of
  zero. \<open>built_from m P g\<close> says that \<open>g\<close> is the graph after the loop body has run on the
  index pairs in \<open>P\<close>: a node with its weight for each diagonal pair, an edge with its
  weight for each pair that makes one, and the endpoints of those edges as nodes.
\<close>

definition coupled :: "matrix \<Rightarrow> nat \<Rightarrow> nat \<Rightarrow> bool" where
  "coupled m i j \<longleftrightarrow> i \<noteq> j \<and> \<not> \<bar>m ! i ! j - 0\<bar> \<le> 1 / 10 ^ 8"

definition linked :: "matrix \<Rightarrow> (nat \<times> nat) set \<Rightarrow> nat \<Rightarrow> nat \<Rightarrow> bool" where
  "linked m P a b \<longleftrightarrow> coupled m a b \<and> ((a, b) \<in> P \<or> (b, a) \<in> P)"

definition built_from :: "matrix \<Rightarrow> (nat \<times> nat) set \<Rightarrow> nat graph \<Rightarrow> bool" where
  "built_from m P g \<longleftrightarrow>
     graph_ok g
     \<and> (\<forall>a. map_of (node_attr g) a =
              (if (a, a) \<in> P then Some (Some (m ! a ! a))
               else if \<exists>b. linked m P a b then Some None else None))
     \<and> (\<forall>a b. edge_data g a b = (if linked m P a b then Some (Some (m ! a ! b)) else None))"

text \<open>The entry that \<open>get_ising_matrix\<close> writes at \<open>(i, j)\<close>.\<close>

definition ising_value :: "matrix \<Rightarrow> nat \<Rightarrow> nat \<Rightarrow> real" where
  "ising_value q i j =
     (if i = j then q ! i ! i / 2 + sum_list (q ! i) - q ! i ! i else q ! i ! j / 4)"

section \<open>Example data\<close>

text \<open>A path \<open>0 - 1 - 2\<close> with edge weights \<open>2\<close> and \<open>5\<close>, and a single edge of weight \<open>3\<close>.\<close>

definition triangle :: "nat graph" where
  "triangle = add_edge 1 2 5 (add_edge 0 1 2 empty_graph)"

definition one_edge :: "nat graph" where
  "one_edge = add_edge 0 1 3 empty_graph"

text \<open>
  An evaluator on the graph \<open>0 - 1\<close>: one layer, node weights \<open>2\<close> and \<open>3\<close>, edge weight
  \<open>5\<close>, and the elements node \<open>0\<close> and edge \<open>(0, 1)\<close>. \<open>count_le\<close> stands in for the
  contraction: it returns the number of gates of the circuit.
\<close>

definition pair_graph :: "int graph" where
  "pair_graph = add_edge 0 1 1 empty_graph"

definition demo :: CircuitByTensor where
  "demo = (init (Some [0 \<mapsto> 2, 1 \<mapsto> 3]) (Some [(0, 1) \<mapsto> 5]) ''greedy'' None)
            \<lparr>p := Some 1, pargs := Some [1 / 2, 1 / 4],
             element_to_graph := Some [(ENode 0, pair_graph), (EEdge 0 1, pair_graph)]\<rparr>"

definition count_le :: "string \<Rightarrow> circuit \<Rightarrow> observable \<Rightarrow> nat list \<Rightarrow> error + complex" where
  "count_le optimize circ obs wh = Inr (Complex (real (length (gates circ))) 0)"

definition demo_world :: world where
  "demo_world = \<lparr>environ = [], printed = []\<rparr>"

text \<open>
  An Ising graph on the nodes \<open>0\<close> and \<open>1\<close> with fields \<open>1\<close> and coupling \<open>2\<close>, measured
  counts for the four keys, and a graph whose single field is \<open>999999\<close>.
\<close>

definition ising_pair :: "int graph" where
  "ising_pair = add_edge 0 1 2 (add_node 1 1 (add_node 0 1 empty_graph))"

definition counts :: "(string \<times> nat) list" where
  "counts = [(''11'', 5), (''01'', 3), (''10'', 7), (''00'', 1)]"

definition heavy_node :: "int graph" where
  "heavy_node = add_node 0 999999 empty_graph"

text \<open>
  A contraction that fails: \<open>ValueError\<close> for the observable \<open>Z\<close>, \<open>IndexError\<close> for
  \<open>Z \<otimes> Z\<close>.
\<close>

definition fail_le :: "string \<Rightarrow> circuit \<Rightarrow> observable \<Rightarrow> nat list \<Rightarrow> error + complex" where
  "fail_le optimize circ obs wh = (case obs of PauliZ \<Rightarrow> Inl ValueError | PauliZZ \<Rightarrow> Inl IndexError)"

section \<open>Properties\<close>

subsection \<open>The value of a cut\<close>

lemma stretch_same: "length xs = n \<Longrightarrow> stretch n xs = xs"
  by (simp add: stretch_def)

lemma square_rows: "square n a \<Longrightarrow> i < n \<Longrightarrow> length (a ! i) = n"
  by (auto simp: square_def list_all_length)

lemma square_length: "square n a \<Longrightarrow> length a = n"
  by (simp add: square_def)

lemma square_ncols: "square n a \<Longrightarrow> ncols a = n"
  by (cases a) (auto simp: square_def ncols_def)

lemma square_stretch: "square n a \<Longrightarrow> stretch n (map (stretch n) a) = a"
  by (auto simp: square_def stretch_def list_all_iff intro: map_idI)

lemma square_outer: "length x = n \<Longrightarrow> length y = n \<Longrightarrow> square n (np_outer x y)"
  by (auto simp: square_def np_outer_def list_all_iff)

lemma np_multiply_square:
  assumes "square n a" "square n b"
  shows "np_multiply a b = Inr (map2 (map2 (*)) a b)"
  using assms
  by (simp add: np_multiply_def nrows_def square_length square_ncols broadcast_dim_def
      square_stretch)

lemma np_sum_square:
  assumes "square n a"
  shows "np_sum a = (\<Sum>i<n. \<Sum>j<n. a ! i ! j)"
proof -
  have "np_sum a = (\<Sum>i<n. sum_list (a ! i))"
    using assms by (simp add: np_sum_def sum_list_sum_nth square_length atLeast0LessThan)
  also have "\<dots> = (\<Sum>i<n. \<Sum>j<n. a ! i ! j)"
    using assms by (intro sum.cong refl) (simp add: sum_list_sum_nth square_rows atLeast0LessThan)
  finally show ?thesis .
qed

lemma max_cut_value_sum:
  assumes "length x = n" "square n w"
  shows "max_cut_value x w = Inr (\<Sum>i<n. \<Sum>j<n. w ! i ! j * x ! i * (1 - x ! j))"
proof -
  let ?X = "np_outer x (map (\<lambda>a. 1 - a) x)"
  have sq: "square n ?X" using assms by (simp add: square_outer)
  have sqp: "square n (map2 (map2 (*)) w ?X)"
    using assms sq by (auto simp: square_def list_all_length)
  have ent: "map2 (map2 (*)) w ?X ! i ! j = w ! i ! j * x ! i * (1 - x ! j)"
    if "i < n" "j < n" for i j
    using that assms sq by (simp add: square_length square_rows np_outer_def)
  have "max_cut_value x w = Inr (np_sum (map2 (map2 (*)) w ?X))"
    using assms sq by (simp add: max_cut_value_def Let_def np_multiply_square)
  also have "np_sum (map2 (map2 (*)) w ?X) = (\<Sum>i<n. \<Sum>j<n. w ! i ! j * x ! i * (1 - x ! j))"
    unfolding np_sum_square [OF sqp] by (intro sum.cong refl) (simp add: ent)
  finally show ?thesis .
qed

lemma double_sum_pairs:
  fixes f :: "nat \<Rightarrow> nat \<Rightarrow> real"
  assumes "\<And>i. i < n \<Longrightarrow> f i i = 0"
  shows "(\<Sum>i<n. \<Sum>j<n. f i j) = (\<Sum>j<n. \<Sum>i<j. f i j + f j i)"
  using assms
proof (induction n)
  case 0
  then show ?case by simp
next
  case (Suc n)
  have "(\<Sum>i<Suc n. \<Sum>j<Suc n. f i j) = (\<Sum>i<n. \<Sum>j<n. f i j) + (\<Sum>i<n. f i n) + (\<Sum>j<n. f n j) + f n n"
    by (simp add: sum.distrib)
  also have "\<dots> = (\<Sum>j<n. \<Sum>i<j. f i j + f j i) + (\<Sum>i<n. f i n + f n i)"
    using Suc by (simp add: sum.distrib)
  finally show ?case by simp
qed

lemma binary_nth: "binary x \<Longrightarrow> i < length x \<Longrightarrow> x ! i = 0 \<or> x ! i = 1"
  by (auto simp: binary_def list_all_length)

text \<open>
  Claim C10. For a vector \<open>x\<close> of length \<open>n\<close> and an \<open>n \<times> n\<close> matrix \<open>w\<close>,
  \<open>max_cut_value x w\<close> returns the sum over all ordered pairs \<open>(i, j)\<close> of
  \<open>w[i][j] * x[i] * (1 - x[j])\<close>. For a 0/1 vector every diagonal term is zero, and for a
  symmetric \<open>w\<close> the value is the total weight of the edges \<open>{i, j}\<close>, \<open>i < j\<close>, whose
  endpoints lie on different sides of the cut, each edge counted once.
\<close>

theorem max_cut_value_correct:
  assumes "length x = n" and "square n w" and "binary x"
  shows "max_cut_value x w = Inr (\<Sum>i<n. \<Sum>j<n. w ! i ! j * x ! i * (1 - x ! j))
       \<and> (\<forall>i<n. w ! i ! i * x ! i * (1 - x ! i) = 0)
       \<and> (symmetric n w \<longrightarrow>
            max_cut_value x w = Inr (\<Sum>j<n. \<Sum>i<j. if x ! i \<noteq> x ! j then w ! i ! j else 0))"
proof -
  have diag: "w ! i ! i * x ! i * (1 - x ! i) = 0" if "i < n" for i
    using binary_nth [OF assms(3), of i] that assms(1) by auto
  have pair: "w ! i ! j * x ! i * (1 - x ! j) + w ! j ! i * x ! j * (1 - x ! i)
        = (if x ! i \<noteq> x ! j then w ! i ! j else 0)"
    if "symmetric n w" "j < n" "i < j" for i j
  proof -
    have "w ! j ! i = w ! i ! j" using that by (simp add: symmetric_def)
    moreover have "x ! i = 0 \<or> x ! i = 1" "x ! j = 0 \<or> x ! j = 1"
      using binary_nth [OF assms(3)] that assms(1) by auto
    ultimately show ?thesis by auto
  qed
  have "(\<Sum>i<n. \<Sum>j<n. w ! i ! j * x ! i * (1 - x ! j))
      = (\<Sum>j<n. \<Sum>i<j. if x ! i \<noteq> x ! j then w ! i ! j else 0)" if sym: "symmetric n w"
  proof -
    let ?f = "\<lambda>i j. w ! i ! j * x ! i * (1 - x ! j)"
    have "(\<Sum>i<n. \<Sum>j<n. ?f i j) = (\<Sum>j<n. \<Sum>i<j. ?f i j + ?f j i)"
      by (rule double_sum_pairs) (simp add: diag)
    also have "\<dots> = (\<Sum>j<n. \<Sum>i<j. if x ! i \<noteq> x ! j then w ! i ! j else 0)"
      by (intro sum.cong refl) (simp only: pair [OF sym] lessThan_iff)
    finally show ?thesis .
  qed
  then show ?thesis
    using max_cut_value_sum [OF assms(1,2)] diag by simp
qed

theorem max_cut_value_correct_witness:
  "length [1, 0, 1 :: real] = 3 \<and> square 3 [[0, 2, 3], [2, 0, 5], [3, 5, 0]] \<and> binary [1, 0, 1]
     \<and> symmetric 3 [[0, 2, 3], [2, 0, 5], [3, 5, 0]]
     \<and> max_cut_value [1, 0, 1] [[0, 2, 3], [2, 0, 5], [3, 5, 0]] = Inr 7"
proof -
  have a: "length [1, 0, 1 :: real] = 3" by simp
  have b: "square 3 [[0, 2, 3], [2, 0, 5], [3, 5, 0]]" by (simp add: square_def)
  have c: "binary [1, 0, 1]" by (simp add: binary_def)
  have d: "symmetric 3 [[0, 2, 3], [2, 0, 5], [3, 5, 0]]"
    by (simp add: symmetric_def less_Suc_eq numeral_3_eq_3)
  show ?thesis
    using max_cut_value_correct [OF a b c] a b c d
    by (simp add: lessThan_Suc numeral_3_eq_3 lessThan_nat_numeral)
qed

lemma for_each_append:
  "for_each (xs @ ys) body s = then_do (for_each xs body s) (for_each ys body)"
  by (induction xs arbitrary: s) (auto simp: then_do_def split: sum.splits)

lemma for_each_snoc:
  "for_each (xs @ [x]) body s = then_do (for_each xs body s) (body x)"
  by (simp add: for_each_append) (auto simp: then_do_def split: sum.splits)

lemma then_do_Inr [simp]: "then_do (Inr v) f = f v"
  by (simp add: then_do_def)

lemma then_do_Inl [simp]: "then_do (Inl e) f = Inl e"
  by (simp add: then_do_def)

subsection \<open>The Ising matrix\<close>

lemma energy_gap_input: "symmetric 2 [[0, 1], [1, 0]] \<and> square 2 [[0, 1], [1, 0]]"
  by (simp add: symmetric_def square_def less_Suc_eq numeral_2_eq_2)

text \<open>
  Claim C1 (the conversion at a concrete input). For the symmetric matrix
  \<open>Q = [[0, 1], [1, 0]]\<close>, \<open>get_ising_matrix\<close> returns \<open>[[1, 1/4], [1/4, 1]]\<close>. With
  the fields on the diagonal and the couplings off it, the Ising energy at the spins of
  \<open>x\<close> minus the QUBO energy \<open>x\<^sup>T Q x\<close> is \<open>-3/2\<close> at \<open>x = (0, 0)\<close> and \<open>1/2\<close> at
  \<open>x = (1, 1)\<close>: the difference depends on \<open>x\<close>.
\<close>

theorem get_ising_matrix_energy_gap:
  "get_ising_matrix [[0, 1], [1, 0]] = Inr [[1, 1 / 4], [1 / 4, 1]]
   \<and> ising_energy [[1, 1 / 4], [1 / 4, 1]] (spins [0, 0]) - qubo_energy [[0, 1], [1, 0]] [0, 0] = - (3 / 2)
   \<and> ising_energy [[1, 1 / 4], [1 / 4, 1]] (spins [1, 1]) - qubo_energy [[0, 1], [1, 0]] [1, 1] = 1 / 2"
proof -
  have u: "[0..<2] = [0, Suc 0]" by (simp add: upt_rec)
  have a: "get_ising_matrix [[0, 1], [1, 0]] = Inr [[1, 1 / 4], [1 / 4, 1]]"
    by (simp add: get_ising_matrix_def zeros_like_def ising_entry_def mat_get_def mat_set_def
        row_sum_def u)
  have d: "ising_energy [[1, 1 / 4], [1 / 4, 1]] (spins [0, 0]) - qubo_energy [[0, 1], [1, 0]] [0, 0] = - (3 / 2)"
    by (simp add: ising_energy_def qubo_energy_def spins_def u)
  have e: "ising_energy [[1, 1 / 4], [1 / 4, 1]] (spins [1, 1]) - qubo_energy [[0, 1], [1, 0]] [1, 1] = 1 / 2"
    by (simp add: ising_energy_def qubo_energy_def spins_def u)
  show ?thesis using a d e by simp
qed

subsection \<open>The Q matrix of Max-Cut\<close>

lemma adjacency_matrix_square: "square (length (nodes g)) (adjacency_matrix g)"
  by (simp add: square_def adjacency_matrix_def list_all_iff)

lemma qubo_diag_loop:
  assumes sq: "square n a" and k: "k \<le> n"
  shows "\<exists>q. for_each [0..<k] (qubo_diag a) a = Inr q \<and> square n q
           \<and> (\<forall>i<n. \<forall>j<n. q ! i ! j = (if i = j \<and> i < k then qubo_diag_value a i else a ! i ! j))"
  using k
proof (induction k)
  case 0
  then show ?case using sq by simp
next
  case (Suc k)
  then obtain q where q: "for_each [0..<k] (qubo_diag a) a = Inr q" "square n q"
    "\<forall>i<n. \<forall>j<n. q ! i ! j = (if i = j \<and> i < k then qubo_diag_value a i else a ! i ! j)"
    by auto
  have kn: "k < n" using Suc.prems by simp
  let ?q' = "q[k := (q ! k)[k := qubo_diag_value a k]]"
  have step: "qubo_diag a k q = Inr ?q'"
    using kn sq q(2)
    by (simp add: qubo_diag_def row_sum_def mat_get_def mat_set_def square_length square_rows
        qubo_diag_value_def)
  have sq': "square n ?q'"
    using q(2) kn by (auto simp: square_def list_all_length nth_list_update)
  have ent: "\<forall>i<n. \<forall>j<n. ?q' ! i ! j = (if i = j \<and> i < Suc k then qubo_diag_value a i else a ! i ! j)"
    using q(2,3) kn by (auto simp: nth_list_update square_length square_rows less_Suc_eq)
  have "for_each [0..<Suc k] (qubo_diag a) a = Inr ?q'"
    by (simp add: for_each_snoc q(1) step)
  then show ?case using sq' ent by blast
qed

text \<open>
  Claim C6. When \<open>_node_num\<close> is the number of nodes of the graph, \<open>get_Qmatrix\<close>
  returns a square matrix \<open>q\<close> that agrees with the adjacency matrix \<open>A\<close> off the
  diagonal and has \<open>q[i][i] = - (sum of row i of A - A[i][i])\<close> on it.
\<close>

theorem get_Qmatrix_correct:
  assumes "node_num mc = length (nodes (graph mc))"
  shows "\<exists>q. get_Qmatrix mc = Inr q \<and> square (node_num mc) q
     \<and> (\<forall>i<node_num mc.
           q ! i ! i = - (sum_list (adjacency_matrix (graph mc) ! i) - adjacency_matrix (graph mc) ! i ! i)
         \<and> (\<forall>j<node_num mc. i \<noteq> j \<longrightarrow> q ! i ! j = adjacency_matrix (graph mc) ! i ! j))"
proof -
  let ?a = "adjacency_matrix (graph mc)"
  have sq: "square (node_num mc) ?a"
    using assms adjacency_matrix_square [of "graph mc"] by simp
  obtain q where q: "for_each [0..<node_num mc] (qubo_diag ?a) ?a = Inr q" "square (node_num mc) q"
    "\<forall>i<node_num mc. \<forall>j<node_num mc. q ! i ! j =
        (if i = j \<and> i < node_num mc then qubo_diag_value ?a i else ?a ! i ! j)"
    using qubo_diag_loop [OF sq order_refl] by blast
  have "get_Qmatrix mc = Inr q"
    by (simp add: get_Qmatrix_def Let_def q(1))
  moreover have "\<forall>i<node_num mc. q ! i ! i = - (sum_list (?a ! i) - ?a ! i ! i)
         \<and> (\<forall>j<node_num mc. i \<noteq> j \<longrightarrow> q ! i ! j = ?a ! i ! j)"
    using q(3) by (simp add: qubo_diag_value_def)
  ultimately show ?thesis using q(2) by blast
qed

lemma triangle_eval:
  "triangle = \<lparr>node_attr = [(0, None), (1, None), (2, None)],
      adj = [(0, [(1, Some 2)]), (1, [(0, Some 2), (2, Some 5)]), (2, [(1, Some 5)])]\<rparr>"
  by (simp add: triangle_def add_edge_def touch_node_def has_node_def empty_graph_def Let_def)

lemma triangle_adjacency: "adjacency_matrix triangle = [[0, 2, 0], [2, 0, 5], [0, 5, 0]]"
  by (simp add: triangle_eval adjacency_matrix_def nodes_def edge_data_def)

theorem get_Qmatrix_correct_witness:
  "node_num \<lparr>node_num = 3, graph = triangle, qmatrix = None\<rparr>
     = length (nodes (graph \<lparr>node_num = 3, graph = triangle, qmatrix = None\<rparr>))
   \<and> get_Qmatrix \<lparr>node_num = 3, graph = triangle, qmatrix = None\<rparr>
     = Inr [[- 2, 2, 0], [2, - 7, 5], [0, 5, - 5]]"
proof -
  let ?mc = "\<lparr>node_num = 3, graph = triangle, qmatrix = None\<rparr>"
  have h: "node_num ?mc = length (nodes (graph ?mc))"
    by (simp add: triangle_eval nodes_def)
  have u: "[0..<3] = [0, Suc 0, Suc (Suc 0)]" by (simp add: upt_rec)
  have "get_Qmatrix ?mc = Inr [[- 2, 2, 0], [2, - 7, 5], [0, 5, - 5]]"
    using get_Qmatrix_correct [OF h]
    by (simp add: get_Qmatrix_def triangle_adjacency u qubo_diag_def row_sum_def mat_get_def
        mat_set_def)
  then show ?thesis using h by simp
qed

subsection \<open>The stored Q matrix\<close>

text \<open>
  Claim C8. Once \<open>run\<close> has stored a Q matrix \<open>q\<close>, \<open>update_random_graph\<close> leaves
  it in place, whatever graph it installs, and the next \<open>run\<close> returns the graph built
  from \<open>q\<close>: the result of the earlier \<open>run\<close>. When the object started without a stored
  matrix, \<open>q\<close> is the Q matrix of the original graph.
\<close>

theorem update_random_graph_keeps_qmatrix:
  assumes "run mc = (r, mc1)" and "qmatrix mc1 = Some q"
  shows "qmatrix (snd (update_random_graph n gen mc1)) = Some q
       \<and> fst (run (snd (update_random_graph n gen mc1)))
           = then_do (get_ising_matrix q) (\<lambda>ising_mat. get_weights_graph ising_mat None)
       \<and> fst (run (snd (update_random_graph n gen mc1))) = r
       \<and> (qmatrix mc = None \<longrightarrow> get_Qmatrix mc = Inr q)"
proof -
  let ?mc2 = "snd (update_random_graph n gen mc1)"
  have q2: "qmatrix ?mc2 = Some q"
    using assms(2) by (cases gen) (simp_all add: update_random_graph_def)
  have r2: "fst (run ?mc2) = then_do (get_ising_matrix q) (\<lambda>ising_mat. get_weights_graph ising_mat None)"
    by (simp add: run_def q2)
  have r1: "r = then_do (get_ising_matrix q) (\<lambda>ising_mat. get_weights_graph ising_mat None)"
    and orig: "qmatrix mc = None \<longrightarrow> get_Qmatrix mc = Inr q"
    using assms by (auto simp: run_def split: option.splits sum.splits)
  show ?thesis using q2 r2 r1 orig by simp
qed

lemma one_edge_eval:
  "one_edge = \<lparr>node_attr = [(0, None), (1, None)],
      adj = [(0, [(1, Some 3)]), (1, [(0, Some 3)])]\<rparr>"
  by (simp add: one_edge_def add_edge_def touch_node_def has_node_def empty_graph_def Let_def)

lemma one_edge_Qmatrix:
  "get_Qmatrix \<lparr>node_num = 2, graph = one_edge, qmatrix = None\<rparr> = Inr [[- 3, 3], [3, - 3]]"
proof -
  have u: "[0..<2] = [0, Suc 0]" by (simp add: upt_rec)
  show ?thesis
    by (simp add: get_Qmatrix_def one_edge_eval adjacency_matrix_def nodes_def edge_data_def u
        qubo_diag_def row_sum_def mat_get_def mat_set_def)
qed

lemma one_edge_ising:
  "get_ising_matrix [[- 3, 3], [3, - 3]] = Inr [[3 / 2, 3 / 4], [3 / 4, 3 / 2]]"
proof -
  have u: "[0..<2] = [0, Suc 0]" by (simp add: upt_rec)
  show ?thesis
    by (simp add: get_ising_matrix_def zeros_like_def ising_entry_def mat_get_def mat_set_def
        row_sum_def u)
qed

lemma one_edge_weights:
  "get_weights_graph [[3 / 2, 3 / 4], [3 / 4, 3 / 2]] None =
     Inr \<lparr>node_attr = [(0, Some (3 / 2)), (1, Some (3 / 2))],
          adj = [(0, [(1, Some (3 / 4))]), (1, [(0, Some (3 / 4))])]\<rparr>"
proof -
  have u: "[0..<2] = [0, Suc 0]" by (simp add: upt_rec)
  show ?thesis
    by (simp add: get_weights_graph_def weights_entry_def node_map_def mat_get_def u
        add_node_def add_edge_def touch_node_def has_node_def empty_graph_def Let_def)
qed

lemma one_edge_run:
  "run \<lparr>node_num = 2, graph = one_edge, qmatrix = None\<rparr> =
     (Inr \<lparr>node_attr = [(0, Some (3 / 2)), (1, Some (3 / 2))],
           adj = [(0, [(1, Some (3 / 4))]), (1, [(0, Some (3 / 4))])]\<rparr>,
      \<lparr>node_num = 2, graph = one_edge, qmatrix = Some [[- 3, 3], [3, - 3]]\<rparr>)"
  by (simp add: run_def one_edge_Qmatrix one_edge_ising one_edge_weights)

theorem update_random_graph_keeps_qmatrix_witness:
  "run \<lparr>node_num = 2, graph = one_edge, qmatrix = None\<rparr> =
     (Inr \<lparr>node_attr = [(0, Some (3 / 2)), (1, Some (3 / 2))],
           adj = [(0, [(1, Some (3 / 4))]), (1, [(0, Some (3 / 4))])]\<rparr>,
      \<lparr>node_num = 2, graph = one_edge, qmatrix = Some [[- 3, 3], [3, - 3]]\<rparr>)
   \<and> snd (update_random_graph 3 (Inr triangle)
          \<lparr>node_num = 2, graph = one_edge, qmatrix = Some [[- 3, 3], [3, - 3]]\<rparr>)
      = \<lparr>node_num = 3, graph = triangle, qmatrix = Some [[- 3, 3], [3, - 3]]\<rparr>
   \<and> fst (run \<lparr>node_num = 3, graph = triangle, qmatrix = Some [[- 3, 3], [3, - 3]]\<rparr>)
      = Inr \<lparr>node_attr = [(0, Some (3 / 2)), (1, Some (3 / 2))],
            adj = [(0, [(1, Some (3 / 4))]), (1, [(0, Some (3 / 4))])]\<rparr>
   \<and> get_Qmatrix \<lparr>node_num = 3, graph = triangle, qmatrix = None\<rparr>
      = Inr [[- 2, 2, 0], [2, - 7, 5], [0, 5, - 5]]"
proof -
  let ?mc1 = "\<lparr>node_num = 2, graph = one_edge, qmatrix = Some [[- 3, 3], [3, - 3]]\<rparr>"
  have q: "qmatrix ?mc1 = Some [[- 3, 3], [3, - 3]]" by simp
  have up: "snd (update_random_graph 3 (Inr triangle) ?mc1)
      = \<lparr>node_num = 3, graph = triangle, qmatrix = Some [[- 3, 3], [3, - 3]]\<rparr>"
    by (simp add: update_random_graph_def)
  have u: "[0..<3] = [0, Suc 0, Suc (Suc 0)]" by (simp add: upt_rec)
  have tq: "get_Qmatrix \<lparr>node_num = 3, graph = triangle, qmatrix = None\<rparr>
      = Inr [[- 2, 2, 0], [2, - 7, 5], [0, 5, - 5]]"
    by (simp add: get_Qmatrix_def triangle_adjacency u qubo_diag_def row_sum_def mat_get_def
        mat_set_def)
  show ?thesis
    using update_random_graph_keeps_qmatrix [OF one_edge_run q, of 3 "Inr triangle"] up tq
      one_edge_run
    by (simp add: one_edge_ising one_edge_weights)
qed

subsection \<open>The sum of the expectations\<close>

lemma serial_loop_ok:
  "map ge items = map Inr vs \<Longrightarrow>
   for_each items (\<lambda>item res. then_do (ge item) (\<lambda>v. Inr (res + v))) a = Inr (foldl (+) a vs)"
proof (induction items arbitrary: a vs)
  case Nil
  then show ?case by simp
next
  case (Cons item items)
  then obtain v vs' where vs: "vs = v # vs'" "ge item = Inr v" "map ge items = map Inr vs'"
    by (cases vs) auto
  show ?case using Cons.IH [OF vs(3)] vs(1,2) by simp
qed

lemma serial_loop_fail:
  "\<not> list_all (\<lambda>r. \<not> isl r) (map ge items) \<Longrightarrow>
   isl (for_each items (\<lambda>item res. then_do (ge item) (\<lambda>v. Inr (res + v))) a)"
proof (induction items arbitrary: a)
  case Nil
  then show ?case by simp
next
  case (Cons item items)
  then show ?case by (cases "ge item") auto
qed

lemma all_right_values:
  "list_all (\<lambda>r. \<not> isl r) rs \<Longrightarrow> rs = map Inr (map projr rs)"
  by (induction rs) (auto simp: isl_def)

lemma foldl_plus_sum_list: "foldl (+) a vs = a + sum_list (vs :: real list)"
  by (induction vs arbitrary: a) auto

text \<open>
  Claim C2. When \<open>_element_to_graph\<close> is set and \<open>get_expectation\<close> returns \<open>vs\<close> on its
  items, in their order, \<open>expectation_calculation_serial\<close> returns the sum of \<open>vs\<close>, added
  from the left starting at \<open>0\<close>, and appends it to \<open>_expectation_path\<close>. An object built
  without \<open>is_parallel\<close> has the flag \<open>False\<close>, and with the flag \<open>False\<close>
  \<open>expectation_calculation\<close> is the serial computation.
\<close>

theorem expectation_calculation_serial_sum:
  assumes "element_to_graph self = Some items"
      and "map (get_expectation le self) items = map Inr vs"
  shows "expectation_calculation_serial cpu_count le self w =
           (Inr (foldl (+) 0 vs),
            self\<lparr>expectation_path := expectation_path self @ [foldl (+) 0 vs]\<rparr>,
            (set_threads cpu_count w)\<lparr>printed := printed w @ [foldl (+) 0 vs]\<rparr>)
       \<and> foldl (+) 0 vs = sum_list vs
       \<and> is_parallel (init nw ew contract_opt None) = False
       \<and> (\<not> is_parallel self \<longrightarrow>
            expectation_calculation cpu_count first_failure le self w =
            expectation_calculation_serial cpu_count le self w)"
  using assms serial_loop_ok [OF assms(2), of 0]
  by (simp add: expectation_calculation_serial_def expectation_calculation_def Let_def
      record_total_def set_threads_def init_def foldl_plus_sum_list)

lemma layer_is_parallel:
  "layer (self\<lparr>is_parallel := b\<rparr>) = layer self"
proof -
  have a: "rz_step (self\<lparr>is_parallel := b\<rparr>) = rz_step self"
    by (intro ext) (simp add: rz_step_def Let_def)
  have c: "rzz_step (self\<lparr>is_parallel := b\<rparr>) = rzz_step self"
    by (intro ext) (simp add: rzz_step_def Let_def)
  show ?thesis by (intro ext) (simp add: layer_def a c)
qed

lemma build_circuit_is_parallel:
  "build_circuit (self\<lparr>is_parallel := b\<rparr>) g = build_circuit self g"
  by (simp add: build_circuit_def layer_is_parallel Let_def cong: option.case_cong)

lemma get_expectation_is_parallel [simp]:
  "get_expectation le (self\<lparr>is_parallel := b\<rparr>) = get_expectation le self"
  by (intro ext)
    (simp add: get_expectation_def Let_def build_circuit_is_parallel cong: element.case_cong)

lemma serial_loop_first_failure:
  "\<not> list_all (\<lambda>r. \<not> isl r) (map ge items) \<Longrightarrow>
   for_each items (\<lambda>item res. then_do (ge item) (\<lambda>v. Inr (res + v))) a
     = Inl (hd (map projl (filter isl (map ge items))))"
proof (induction items arbitrary: a)
  case Nil
  then show ?case by simp
next
  case (Cons item items)
  then show ?case by (cases "ge item") auto
qed

lemma parallel_outcome:
  assumes "element_to_graph self = Some items"
  shows "fst (expectation_calculation_parallel first_failure le self w) =
     (if list_all (\<lambda>r. \<not> isl r) (map (get_expectation le self) items)
      then Inr (foldl (+) 0 (map projr (map (get_expectation le self) items)))
      else Inl (first_failure (map projl (filter isl (map (get_expectation le self) items)))))"
  using assms by (simp add: expectation_calculation_parallel_def Let_def record_total_def)

lemma serial_outcome:
  assumes "element_to_graph self = Some items"
  shows "fst (expectation_calculation_serial cpu_count le self w) =
     (if list_all (\<lambda>r. \<not> isl r) (map (get_expectation le self) items)
      then Inr (foldl (+) 0 (map projr (map (get_expectation le self) items)))
      else Inl (hd (map projl (filter isl (map (get_expectation le self) items)))))"
proof (cases "list_all (\<lambda>r. \<not> isl r) (map (get_expectation le self) items)")
  case True
  have "for_each items (\<lambda>item res. then_do (get_expectation le self item) (\<lambda>v. Inr (res + v))) 0
          = Inr (foldl (+) 0 (map projr (map (get_expectation le self) items)))"
    by (rule serial_loop_ok) (rule all_right_values [OF True])
  then show ?thesis using assms True
    by (simp add: expectation_calculation_serial_def Let_def record_total_def)
next
  case False
  have "for_each items (\<lambda>item res. then_do (get_expectation le self item) (\<lambda>v. Inr (res + v))) 0
          = Inl (hd (map projl (filter isl (map (get_expectation le self) items))))"
    by (rule serial_loop_first_failure [OF False])
  then show ?thesis using assms False
    by (simp add: expectation_calculation_serial_def Let_def)
qed

lemma parallel_path:
  "expectation_path (fst (snd (expectation_calculation_parallel first_failure le self w))) =
     expectation_path self @
       (case fst (expectation_calculation_parallel first_failure le self w) of
          Inl e \<Rightarrow> [] | Inr v \<Rightarrow> [v])"
  by (auto simp: expectation_calculation_parallel_def Let_def record_total_def
      split: option.splits sum.splits)

lemma serial_path:
  "expectation_path (fst (snd (expectation_calculation_serial cpu_count le self w))) =
     expectation_path self @
       (case fst (expectation_calculation_serial cpu_count le self w) of
          Inl e \<Rightarrow> [] | Inr v \<Rightarrow> [v])"
  by (auto simp: expectation_calculation_serial_def Let_def record_total_def
      split: option.splits sum.splits)

lemma parallel_serial_totals:
  assumes g: "element_to_graph s1 = element_to_graph s2"
    and e: "get_expectation le s1 = get_expectation le s2"
  shows "total_of (fst (expectation_calculation_parallel first_failure le s1 w))
       = total_of (fst (expectation_calculation_serial cpu_count le s2 w))"
proof (cases "element_to_graph s2")
  case None
  then show ?thesis using g
    by (simp add: expectation_calculation_parallel_def expectation_calculation_serial_def
        Let_def total_of_def)
next
  case (Some items)
  then have s1: "element_to_graph s1 = Some items" using g by simp
  show ?thesis
    unfolding parallel_outcome [OF s1] serial_outcome [OF Some] e
    by (simp add: total_of_def)
qed

lemma total_of_tail:
  "total_of r1 = total_of r2 \<Longrightarrow>
   (case r1 of Inl e \<Rightarrow> [] | Inr v \<Rightarrow> [v]) = (case r2 of Inl e \<Rightarrow> [] | Inr v \<Rightarrow> [v])"
  by (auto simp: total_of_def split: sum.splits)

text \<open>
  Claim C3. On one object, \<open>expectation_calculation_parallel\<close> and
  \<open>expectation_calculation_serial\<close> either both raise or return the same total, and leave
  the same path of expectations. With \<open>_is_parallel\<close> set, \<open>expectation_calculation\<close> is the
  parallel computation, otherwise the serial one, so the two modes agree in the same way.
  When every item succeeds both return the expectations added from the left in the order
  of the items; when some item fails the serial loop raises the first failure in that
  order and the pool raises the one \<open>first_failure\<close> picks from the failures in that
  order. The parallel computation sets the thread variables to \<open>1\<close>, the serial one to
  the number of processors.
\<close>

theorem parallel_equals_serial:
  "total_of (fst (expectation_calculation_parallel first_failure le self w))
     = total_of (fst (expectation_calculation_serial cpu_count le self w))
   \<and> expectation_path (fst (snd (expectation_calculation_parallel first_failure le self w)))
     = expectation_path (fst (snd (expectation_calculation_serial cpu_count le self w)))
   \<and> expectation_calculation cpu_count first_failure le (self\<lparr>is_parallel := True\<rparr>) w
     = expectation_calculation_parallel first_failure le (self\<lparr>is_parallel := True\<rparr>) w
   \<and> expectation_calculation cpu_count first_failure le (self\<lparr>is_parallel := False\<rparr>) w
     = expectation_calculation_serial cpu_count le (self\<lparr>is_parallel := False\<rparr>) w
   \<and> total_of (fst (expectation_calculation cpu_count first_failure le (self\<lparr>is_parallel := True\<rparr>) w))
     = total_of (fst (expectation_calculation cpu_count first_failure le (self\<lparr>is_parallel := False\<rparr>) w))
   \<and> expectation_path (fst (snd (expectation_calculation cpu_count first_failure le (self\<lparr>is_parallel := True\<rparr>) w)))
     = expectation_path (fst (snd (expectation_calculation cpu_count first_failure le (self\<lparr>is_parallel := False\<rparr>) w)))
   \<and> (element_to_graph self = Some items \<longrightarrow>
        fst (expectation_calculation_parallel first_failure le self w) =
          (if list_all (\<lambda>r. \<not> isl r) (map (get_expectation le self) items)
           then Inr (foldl (+) 0 (map projr (map (get_expectation le self) items)))
           else Inl (first_failure (map projl (filter isl (map (get_expectation le self) items)))))
        \<and> fst (expectation_calculation_serial cpu_count le self w) =
          (if list_all (\<lambda>r. \<not> isl r) (map (get_expectation le self) items)
           then Inr (foldl (+) 0 (map projr (map (get_expectation le self) items)))
           else Inl (hd (map projl (filter isl (map (get_expectation le self) items))))))
   \<and> environ (snd (snd (expectation_calculation_parallel first_failure le self w)))
     = environ (set_threads 1 w)
   \<and> environ (snd (snd (expectation_calculation_serial cpu_count le self w)))
     = environ (set_threads cpu_count w)"
proof -
  let ?par = "expectation_calculation_parallel first_failure le"
  let ?ser = "expectation_calculation_serial cpu_count le"
  let ?t = "self\<lparr>is_parallel := True\<rparr>" and ?f = "self\<lparr>is_parallel := False\<rparr>"
  have c1: "total_of (fst (?par self w)) = total_of (fst (?ser self w))"
    by (rule parallel_serial_totals) simp_all
  have c2: "expectation_path (fst (snd (?par self w))) = expectation_path (fst (snd (?ser self w)))"
    unfolding parallel_path serial_path using total_of_tail [OF c1] by simp
  have c3: "expectation_calculation cpu_count first_failure le ?t w = ?par ?t w"
    by (simp add: expectation_calculation_def)
  have c4: "expectation_calculation cpu_count first_failure le ?f w = ?ser ?f w"
    by (simp add: expectation_calculation_def)
  have c5': "total_of (fst (?par ?t w)) = total_of (fst (?ser ?f w))"
    by (rule parallel_serial_totals) simp_all
  have c5: "total_of (fst (expectation_calculation cpu_count first_failure le ?t w))
     = total_of (fst (expectation_calculation cpu_count first_failure le ?f w))"
    unfolding c3 c4 by (rule c5')
  have c6: "expectation_path (fst (snd (expectation_calculation cpu_count first_failure le ?t w)))
     = expectation_path (fst (snd (expectation_calculation cpu_count first_failure le ?f w)))"
    unfolding c3 c4 parallel_path serial_path using total_of_tail [OF c5'] by simp
  have c7: "element_to_graph self = Some items \<longrightarrow>
        fst (?par self w) =
          (if list_all (\<lambda>r. \<not> isl r) (map (get_expectation le self) items)
           then Inr (foldl (+) 0 (map projr (map (get_expectation le self) items)))
           else Inl (first_failure (map projl (filter isl (map (get_expectation le self) items)))))
        \<and> fst (?ser self w) =
          (if list_all (\<lambda>r. \<not> isl r) (map (get_expectation le self) items)
           then Inr (foldl (+) 0 (map projr (map (get_expectation le self) items)))
           else Inl (hd (map projl (filter isl (map (get_expectation le self) items)))))"
    using parallel_outcome serial_outcome by blast
  have c8: "environ (snd (snd (?par self w))) = environ (set_threads 1 w)"
    by (auto simp: expectation_calculation_parallel_def Let_def record_total_def
        split: option.splits)
  have c9: "environ (snd (snd (?ser self w))) = environ (set_threads cpu_count w)"
    by (auto simp: expectation_calculation_serial_def Let_def record_total_def
        split: option.splits sum.splits)
  show ?thesis by (intro conjI c1 c2 c3 c4 c5 c6 c7 c8 c9)
qed

subsection \<open>The circuit of an element\<close>

lemma for_each_emit:
  assumes "\<And>x s. x \<in> set xs \<Longrightarrow> body x s = Inr (s @ f x)"
  shows "for_each xs body s = Inr (s @ concat (map f xs))"
  using assms by (induction xs arbitrary: s) auto

lemma reorder_append_left: "reorder gs hs \<Longrightarrow> reorder (zs @ gs) (zs @ hs)"
proof (induction rule: reorder.induct)
  case (same gs)
  show ?case by (rule reorder.same)
next
  case (swap a b xs ys)
  have "reorder ((zs @ xs) @ a # b # ys) ((zs @ xs) @ b # a # ys)"
    by (rule reorder.swap [OF swap])
  then show ?case by simp
next
  case (step gs hs ks)
  then show ?case by (blast intro: reorder.step)
qed

lemma reorder_append_right: "reorder gs hs \<Longrightarrow> reorder (gs @ zs) (hs @ zs)"
proof (induction rule: reorder.induct)
  case (same gs)
  show ?case by (rule reorder.same)
next
  case (swap a b xs ys)
  have "reorder (xs @ a # b # (ys @ zs)) (xs @ b # a # (ys @ zs))"
    by (rule reorder.swap [OF swap])
  then show ?case by simp
next
  case (step gs hs ks)
  then show ?case by (blast intro: reorder.step)
qed

lemma reorder_append: "reorder a b \<Longrightarrow> reorder c d \<Longrightarrow> reorder (a @ c) (b @ d)"
  by (blast intro: reorder.step reorder_append_left reorder_append_right)

lemma reorder_concat:
  "(\<And>x. x \<in> set xs \<Longrightarrow> reorder (f x) (g x)) \<Longrightarrow> reorder (concat (map f xs)) (concat (map g xs))"
  by (induction xs) (auto intro: reorder.same reorder_append)

lemma reorder_move_past:
  "(\<And>a. a \<in> set as \<Longrightarrow> qubits_of b \<inter> qubits_of a = {}) \<Longrightarrow> reorder (b # as) (as @ [b])"
proof (induction as)
  case Nil
  show ?case by (simp add: reorder.same)
next
  case (Cons a as)
  have "reorder ([] @ b # a # as) ([] @ a # b # as)"
    by (rule reorder.swap) (simp add: Cons.prems)
  then have 1: "reorder (b # a # as) (a # b # as)" by simp
  have "reorder (b # as) (as @ [b])" by (rule Cons.IH) (simp add: Cons.prems)
  then have "reorder ([a] @ (b # as)) ([a] @ (as @ [b]))" by (rule reorder_append_left)
  then have 2: "reorder (a # b # as) ((a # as) @ [b])" by simp
  show ?case by (rule reorder.step [OF 1 2])
qed

lemma node_to_qubit_nth:
  assumes "distinct ns" "i < length ns"
  shows "node_to_qubit ns (ns ! i) = i"
proof -
  have d: "distinct (map fst (rev (zip ns [0..<length ns])))"
    using assms(1) by (simp add: rev_map [symmetric])
  have "(ns ! i, i) \<in> set (rev (zip ns [0..<length ns]))"
    using assms(2) by (auto simp: set_zip)
  then have "map_of (rev (zip ns [0..<length ns])) (ns ! i) = Some i"
    using d by simp
  then show ?thesis by (simp add: node_to_qubit_def)
qed

lemma node_to_qubit_inj:
  assumes "distinct ns"
  shows "inj_on (node_to_qubit ns) (set ns)"
proof (rule inj_onI)
  fix x y assume "x \<in> set ns" "y \<in> set ns" and eq: "node_to_qubit ns x = node_to_qubit ns y"
  then obtain i j where ij: "i < length ns" "x = ns ! i" "j < length ns" "y = ns ! j"
    by (auto simp: in_set_conv_nth)
  then show "x = y" using eq node_to_qubit_nth [OF assms] by simp
qed

lemma node_gates_staged:
  assumes "inj_on q (set ns)" "distinct ns"
  shows "reorder (node_gates nw pa q k ns) (h_gates q k ns @ rz_gates nw pa q k ns)"
proof (cases "k = 0")
  case False
  have "node_gates nw pa q k ns = rz_gates nw pa q k ns"
    using False by (induction ns) (simp_all add: node_gates_def rz_gates_def)
  then show ?thesis using False by (simp add: h_gates_def reorder.same)
next
  case True
  let ?h = "\<lambda>nd. H (q nd)" and ?r = "\<lambda>nd. RZ (2 * pa ! k * the (nw nd)) (q nd)"
  have "reorder (concat (map (\<lambda>nd. [?h nd, ?r nd]) ns)) (map ?h ns @ map ?r ns)"
    using assms
  proof (induction ns)
    case Nil
    show ?case by (simp add: reorder.same)
  next
    case (Cons n ns)
    have ih: "reorder (concat (map (\<lambda>nd. [?h nd, ?r nd]) ns)) (map ?h ns @ map ?r ns)"
      using Cons by simp
    have 1: "reorder ([?h n, ?r n] @ concat (map (\<lambda>nd. [?h nd, ?r nd]) ns))
                     ([?h n, ?r n] @ (map ?h ns @ map ?r ns))"
      by (rule reorder_append_left [OF ih])
    have "reorder (?r n # map ?h ns) (map ?h ns @ [?r n])"
    proof (rule reorder_move_past)
      fix a assume "a \<in> set (map ?h ns)"
      then obtain nd where nd: "nd \<in> set ns" "a = H (q nd)" by auto
      then have "q nd \<noteq> q n" using Cons.prems by (auto simp: inj_on_def)
      then show "qubits_of (?r n) \<inter> qubits_of a = {}" using nd by auto
    qed
    then have "reorder ([?h n] @ (?r n # map ?h ns)) ([?h n] @ (map ?h ns @ [?r n]))"
      by (rule reorder_append_left)
    then have "reorder (([?h n] @ (?r n # map ?h ns)) @ map ?r ns)
                       (([?h n] @ (map ?h ns @ [?r n])) @ map ?r ns)"
      by (rule reorder_append_right)
    then have 2: "reorder ([?h n, ?r n] @ (map ?h ns @ map ?r ns))
                          (map ?h (n # ns) @ map ?r (n # ns))"
      by simp
    show ?case using reorder.step [OF 1 2] by simp
  qed
  then show ?thesis using True by (simp add: node_gates_def h_gates_def rz_gates_def)
qed

lemma built_layer_staged:
  assumes "distinct (nodes g)"
  shows "reorder (built_layer nw ew pa pp g k) (staged_layer nw ew pa pp g k)"
proof -
  let ?q = "node_to_qubit (nodes g)"
  have "reorder (node_gates nw pa ?q k (nodes g))
                (h_gates ?q k (nodes g) @ rz_gates nw pa ?q k (nodes g))"
    by (rule node_gates_staged [OF node_to_qubit_inj [OF assms] assms])
  then have "reorder (node_gates nw pa ?q k (nodes g)
                        @ (rzz_gates ew pa ?q k (map fst (edges g)) @ rx_gates pa pp ?q k (nodes g)))
                     ((h_gates ?q k (nodes g) @ rz_gates nw pa ?q k (nodes g))
                        @ (rzz_gates ew pa ?q k (map fst (edges g)) @ rx_gates pa pp ?q k (nodes g)))"
    by (rule reorder_append_right)
  then show ?thesis by (simp add: built_layer_def staged_layer_def Let_def)
qed

lemma layer_emits:
  assumes nw: "nodes_weight self = Some nw" and ew: "edges_weight self = Some ew"
    and len: "length pa = 2 * pp" and k: "k < pp"
    and nd: "set (nodes g) \<subseteq> dom nw"
    and ed: "\<And>e. e \<in> fst ` set (edges g) \<Longrightarrow>
               node_to_qubit (nodes g) (fst e) \<noteq> node_to_qubit (nodes g) (snd e) \<Longrightarrow> e \<in> dom ew"
  shows "layer self g (take pp pa) (drop pp pa) (node_to_qubit (nodes g)) k gs
           = Inr (gs @ built_layer nw ew pa pp g k)"
proof -
  let ?q = "node_to_qubit (nodes g)"
  have gk: "nth_checked (take pp pa) k = Inr (pa ! k)"
    using len k by (simp add: nth_checked_def)
  have bk: "nth_checked (drop pp pa) k = Inr (pa ! (pp + k))"
    using len k by (simp add: nth_checked_def)
  have 1: "for_each (nodes g) (rz_step self (take pp pa) k ?q) s = Inr (s @ node_gates nw pa ?q k (nodes g))" for s
    unfolding node_gates_def
  proof (rule for_each_emit)
    fix x s assume "x \<in> set (nodes g)"
    then obtain w where "nw x = Some w" using nd by auto
    then show "rz_step self (take pp pa) k ?q x s =
       Inr (s @ (if k = 0 then [H (?q x)] else []) @ [RZ (2 * pa ! k * the (nw x)) (?q x)])"
      by (simp add: rz_step_def Let_def gk lookup_def nw)
  qed
  have 2: "for_each (edges g) (rzz_step self (take pp pa) k ?q) s
             = Inr (s @ rzz_gates ew pa ?q k (map fst (edges g)))" for s
  proof -
    have "for_each (edges g) (rzz_step self (take pp pa) k ?q) s
          = Inr (s @ concat (map (\<lambda>ed. if ?q (fst (fst ed)) = ?q (snd (fst ed)) then []
                 else [RZZ (- pa ! k * the (ew (fst ed))) (?q (fst (fst ed))) (?q (snd (fst ed)))]) (edges g)))"
    proof (rule for_each_emit)
      fix x s assume x: "x \<in> set (edges g)"
      show "rzz_step self (take pp pa) k ?q x s =
        Inr (s @ (if ?q (fst (fst x)) = ?q (snd (fst x)) then []
             else [RZZ (- pa ! k * the (ew (fst x))) (?q (fst (fst x))) (?q (snd (fst x)))]))"
      proof (cases "?q (fst (fst x)) = ?q (snd (fst x))")
        case True
        then show ?thesis by (simp add: rzz_step_def Let_def)
      next
        case False
        then have "fst x \<in> dom ew" using ed [of "fst x"] x by auto
        then obtain w where "ew (fst x) = Some w" by auto
        then show ?thesis using False
          by (simp add: rzz_step_def Let_def gk lookup_def ew)
      qed
    qed
    then show ?thesis by (simp add: rzz_gates_def map_concat comp_def)
  qed
  have 3: "for_each (nodes g) (rx_step (drop pp pa) k ?q) s = Inr (s @ rx_gates pa pp ?q k (nodes g))" for s
  proof -
    have "for_each (nodes g) (rx_step (drop pp pa) k ?q) s
           = Inr (s @ concat (map (\<lambda>nd. [RX (2 * pa ! (pp + k)) (?q nd)]) (nodes g)))"
      by (rule for_each_emit) (simp add: rx_step_def bk)
    then show ?thesis by (simp add: rx_gates_def)
  qed
  show ?thesis by (simp add: layer_def 1 2 3 built_layer_def Let_def)
qed

lemma build_circuit_gates:
  assumes pp: "p self = Some pp" and pa: "pargs self = Some pa" and len: "length pa = 2 * pp"
    and nw: "nodes_weight self = Some nw" and ew: "edges_weight self = Some ew"
    and nd: "set (nodes g) \<subseteq> dom nw"
    and ed: "\<forall>e \<in> fst ` set (edges g).
               node_to_qubit (nodes g) (fst e) \<noteq> node_to_qubit (nodes g) (snd e) \<longrightarrow> e \<in> dom ew"
  shows "build_circuit self g =
           Inr \<lparr>num_qubits = length (nodes g),
                gates = concat (map (built_layer nw ew pa pp g) [0..<pp])\<rparr>"
proof -
  have "for_each [0..<pp] (layer self g (take pp pa) (drop pp pa) (node_to_qubit (nodes g))) []
          = Inr ([] @ concat (map (built_layer nw ew pa pp g) [0..<pp]))"
  proof (rule for_each_emit)
    fix k s assume "k \<in> set [0..<pp]"
    then have k: "k < pp" by simp
    show "layer self g (take pp pa) (drop pp pa) (node_to_qubit (nodes g)) k s
            = Inr (s @ built_layer nw ew pa pp g k)"
      by (rule layer_emits [OF nw ew len k nd]) (use ed in blast)
  qed
  then show ?thesis by (simp add: build_circuit_def pp pa Let_def)
qed

text \<open>
  Claim C4. With \<open>_p = pp\<close>, \<open>2 * pp\<close> parameters and weights for the nodes and for
  the edges between different qubits, the circuit of \<open>get_expectation\<close> has one qubit per
  node, node \<open>i\<close> of the graph on qubit \<open>i\<close>, and its gates are those of the layers
  \<open>0, \<dots>, pp - 1\<close>: per node \<open>H\<close> (in layer \<open>0\<close> only) and \<open>rz(2 * gamma\<^sub>k * nodes_weight[nd])\<close>,
  then \<open>RZZ(- gamma\<^sub>k * edges_weight[u, v])\<close> on every edge between different qubits, then
  \<open>rx(2 * beta\<^sub>k)\<close> on every node. Exchanging gates on different qubits turns this list
  into the one with all \<open>H\<close> gates of a layer before its \<open>rz\<close> gates. The value returned
  is the real part of the local expectation of \<open>Z\<close> at the node's qubit, or of
  \<open>Z \<otimes> Z\<close> at the qubits of the edge's endpoints, times the weight of the element.
\<close>

theorem get_expectation_circuit:
  assumes "p self = Some pp" and "pargs self = Some pa" and "length pa = 2 * pp"
    and "nodes_weight self = Some nw" and "edges_weight self = Some ew"
    and "set (nodes g) \<subseteq> dom nw"
    and "\<forall>e \<in> fst ` set (edges g).
           node_to_qubit (nodes g) (fst e) \<noteq> node_to_qubit (nodes g) (snd e) \<longrightarrow> e \<in> dom ew"
    and "distinct (nodes g)"
  shows "build_circuit self g =
           Inr \<lparr>num_qubits = length (nodes g),
                gates = concat (map (built_layer nw ew pa pp g) [0..<pp])\<rparr>
       \<and> reorder (concat (map (built_layer nw ew pa pp g) [0..<pp]))
                  (concat (map (staged_layer nw ew pa pp g) [0..<pp]))
       \<and> (\<forall>i<length (nodes g). node_to_qubit (nodes g) (nodes g ! i) = i)
       \<and> get_expectation le self (ENode nd, g) =
           then_do (lookup (Some nw) nd) (\<lambda>weight.
           then_do (le (opt self)
                      \<lparr>num_qubits = length (nodes g),
                       gates = concat (map (built_layer nw ew pa pp g) [0..<pp])\<rparr>
                      PauliZ [node_to_qubit (nodes g) nd]) (\<lambda>exp_res.
             Inr (Re exp_res * weight)))
       \<and> get_expectation le self (EEdge e0 e1, g) =
           then_do (lookup (Some ew) (e0, e1)) (\<lambda>weight.
           then_do (le (opt self)
                      \<lparr>num_qubits = length (nodes g),
                       gates = concat (map (built_layer nw ew pa pp g) [0..<pp])\<rparr>
                      PauliZZ [node_to_qubit (nodes g) e0, node_to_qubit (nodes g) e1]) (\<lambda>exp_res.
             Inr (Re exp_res * weight)))"
proof -
  have b: "build_circuit self g =
           Inr \<lparr>num_qubits = length (nodes g),
                gates = concat (map (built_layer nw ew pa pp g) [0..<pp])\<rparr>"
    by (rule build_circuit_gates [OF assms(1-7)])
  have r: "reorder (concat (map (built_layer nw ew pa pp g) [0..<pp]))
                  (concat (map (staged_layer nw ew pa pp g) [0..<pp]))"
    by (rule reorder_concat) (rule built_layer_staged [OF assms(8)])
  have q: "\<forall>i<length (nodes g). node_to_qubit (nodes g) (nodes g ! i) = i"
    using node_to_qubit_nth [OF assms(8)] by blast
  have n: "get_expectation le self (ENode nd, g) =
           then_do (lookup (Some nw) nd) (\<lambda>weight.
           then_do (le (opt self)
                      \<lparr>num_qubits = length (nodes g),
                       gates = concat (map (built_layer nw ew pa pp g) [0..<pp])\<rparr>
                      PauliZ [node_to_qubit (nodes g) nd]) (\<lambda>exp_res.
             Inr (Re exp_res * weight)))"
    by (simp add: get_expectation_def Let_def b assms(4))
  have e: "get_expectation le self (EEdge e0 e1, g) =
           then_do (lookup (Some ew) (e0, e1)) (\<lambda>weight.
           then_do (le (opt self)
                      \<lparr>num_qubits = length (nodes g),
                       gates = concat (map (built_layer nw ew pa pp g) [0..<pp])\<rparr>
                      PauliZZ [node_to_qubit (nodes g) e0, node_to_qubit (nodes g) e1]) (\<lambda>exp_res.
             Inr (Re exp_res * weight)))"
    by (simp add: get_expectation_def Let_def b assms(5))
  show ?thesis using b r q n e by blast
qed

lemma pair_graph_eval:
  "pair_graph = \<lparr>node_attr = [(0, None), (1, None)],
      adj = [(0, [(1, Some 1)]), (1, [(0, Some 1)])]\<rparr>"
  by (simp add: pair_graph_def add_edge_def touch_node_def has_node_def empty_graph_def Let_def)

lemma pair_graph_nodes: "nodes pair_graph = [0, 1]"
  by (simp add: pair_graph_eval nodes_def)

lemma pair_graph_edges: "edges pair_graph = [((0, 1), Some 1)]"
  by (simp add: pair_graph_eval edges_def)

lemma pair_graph_qubits:
  "node_to_qubit [0, 1] 0 = 0" "node_to_qubit [0, 1] 1 = 1"
  by (simp_all add: node_to_qubit_def upt_rec)

lemma demo_fields:
  "p demo = Some 1" "pargs demo = Some [1 / 2, 1 / 4]"
  "nodes_weight demo = Some [0 \<mapsto> 2, 1 \<mapsto> 3]" "edges_weight demo = Some [(0, 1) \<mapsto> 5]"
  "element_to_graph demo = Some [(ENode 0, pair_graph), (EEdge 0 1, pair_graph)]"
  "opt demo = ''greedy''" "is_parallel demo = False" "expectation_path demo = []"
  by (simp_all add: demo_def init_def)

lemma demo_layer:
  "built_layer [0 \<mapsto> 2, 1 \<mapsto> 3] [(0, 1) \<mapsto> 5] [1 / 2, 1 / 4] (Suc 0) pair_graph 0 =
     [H 0, RZ 2 0, H 1, RZ 3 1, RZZ (- (5 / 2)) 0 1, RX (1 / 2) 0, RX (1 / 2) 1]"
  by (simp add: built_layer_def Let_def pair_graph_nodes pair_graph_edges pair_graph_qubits
      node_gates_def rzz_gates_def rx_gates_def)

theorem get_expectation_circuit_witness:
  "build_circuit demo pair_graph =
     Inr \<lparr>num_qubits = 2,
          gates = [H 0, RZ 2 0, H 1, RZ 3 1, RZZ (- (5 / 2)) 0 1, RX (1 / 2) 0, RX (1 / 2) 1]\<rparr>
   \<and> get_expectation count_le demo (ENode 0, pair_graph) = Inr 14
   \<and> get_expectation count_le demo (EEdge 0 1, pair_graph) = Inr 35"
proof -
  have h6: "set (nodes pair_graph) \<subseteq> dom [0 \<mapsto> 2, 1 \<mapsto> (3::real)]"
    by (simp add: pair_graph_nodes)
  have h7: "\<forall>e \<in> fst ` set (edges pair_graph).
           node_to_qubit (nodes pair_graph) (fst e) \<noteq> node_to_qubit (nodes pair_graph) (snd e)
             \<longrightarrow> e \<in> dom [(0, 1) \<mapsto> (5::real)]"
    by (simp add: pair_graph_edges)
  have h8: "distinct (nodes pair_graph)" by (simp add: pair_graph_nodes)
  have h3: "length [1 / 2, 1 / 4 :: real] = 2 * 1" by simp
  show ?thesis
    using get_expectation_circuit [OF demo_fields(1) demo_fields(2) h3 demo_fields(3)
        demo_fields(4) h6 h7 h8, of count_le 0 0 1]
    by (simp add: demo_layer pair_graph_nodes pair_graph_qubits lookup_def count_le_def)
qed

subsection \<open>What the operations change\<close>

lemma demo_circuit:
  "build_circuit demo pair_graph =
     Inr \<lparr>num_qubits = 2,
          gates = [H 0, RZ 2 0, H 1, RZ 3 1, RZZ (- (5 / 2)) 0 1, RX (1 / 2) 0, RX (1 / 2) 1]\<rparr>"
proof -
  have h6: "set (nodes pair_graph) \<subseteq> dom [0 \<mapsto> 2, 1 \<mapsto> (3::real)]"
    by (simp add: pair_graph_nodes)
  have h7: "\<forall>e \<in> fst ` set (edges pair_graph).
           node_to_qubit (nodes pair_graph) (fst e) \<noteq> node_to_qubit (nodes pair_graph) (snd e)
             \<longrightarrow> e \<in> dom [(0, 1) \<mapsto> (5::real)]"
    by (simp add: pair_graph_edges)
  have h3: "length [1 / 2, 1 / 4 :: real] = 2 * 1" by simp
  show ?thesis
    using build_circuit_gates [OF demo_fields(1) demo_fields(2) h3 demo_fields(3)
        demo_fields(4) h6 h7]
    by (simp add: demo_layer pair_graph_nodes)
qed

lemma demo_values:
  "map (get_expectation count_le demo) [(ENode 0, pair_graph), (EEdge 0 1, pair_graph)]
     = map Inr [14, 35]"
  by (simp add: get_expectation_def Let_def demo_circuit demo_fields lookup_def count_le_def)

lemma demo_serial:
  "expectation_calculation_serial 4 count_le demo demo_world =
     (Inr 49, demo\<lparr>expectation_path := [49]\<rparr>,
      (set_threads 4 demo_world)\<lparr>printed := [49]\<rparr>)"
proof -
  have "for_each [(ENode 0, pair_graph), (EEdge 0 1, pair_graph)]
          (\<lambda>item res. then_do (get_expectation count_le demo item) (\<lambda>v. Inr (res + v))) 0
        = Inr (foldl (+) 0 [14, 35])"
    by (rule serial_loop_ok [OF demo_values])
  then show ?thesis
    by (simp add: expectation_calculation_serial_def Let_def demo_fields record_total_def
        demo_world_def set_threads_def)
qed

theorem expectation_calculation_serial_sum_witness:
  "element_to_graph demo = Some [(ENode 0, pair_graph), (EEdge 0 1, pair_graph)]
   \<and> map (get_expectation count_le demo) [(ENode 0, pair_graph), (EEdge 0 1, pair_graph)]
       = map Inr [14, 35]
   \<and> \<not> is_parallel demo
   \<and> fst (expectation_calculation 4 hd count_le demo demo_world) = Inr 49
   \<and> expectation_path (fst (snd (expectation_calculation 4 hd count_le demo demo_world))) = [49]"
  using expectation_calculation_serial_sum [OF demo_fields(5) demo_values,
      of 4 demo_world None None "''greedy''" hd] demo_values
  by (simp add: demo_fields)

lemma demo_failures:
  "map (get_expectation fail_le demo) [(ENode 0, pair_graph), (EEdge 0 1, pair_graph)]
     = [Inl ValueError, Inl IndexError]"
  by (simp add: get_expectation_def Let_def demo_circuit demo_fields lookup_def fail_le_def)

theorem parallel_equals_serial_witness:
  "element_to_graph demo = Some [(ENode 0, pair_graph), (EEdge 0 1, pair_graph)]
   \<and> expectation_calculation 4 hd count_le (demo\<lparr>is_parallel := True\<rparr>) demo_world
       = expectation_calculation_parallel hd count_le (demo\<lparr>is_parallel := True\<rparr>) demo_world
   \<and> fst (expectation_calculation_parallel hd count_le demo demo_world) = Inr 49
   \<and> fst (expectation_calculation_serial 4 count_le demo demo_world) = Inr 49
   \<and> expectation_path (fst (snd (expectation_calculation_parallel hd count_le demo demo_world)))
       = [49]
   \<and> fst (expectation_calculation_parallel last fail_le demo demo_world) = Inl IndexError
   \<and> fst (expectation_calculation_serial 4 fail_le demo demo_world) = Inl ValueError"
proof -
  note ok = parallel_equals_serial [of hd count_le demo demo_world 4
      "[(ENode 0, pair_graph), (EEdge 0 1, pair_graph)]"]
  note bad = parallel_equals_serial [of last fail_le demo demo_world 4
      "[(ENode 0, pair_graph), (EEdge 0 1, pair_graph)]"]
  note ok2 = ok [THEN conjunct2, THEN conjunct1]
  note ok3 = ok [THEN conjunct2, THEN conjunct2, THEN conjunct1]
  note ok7 = ok [THEN conjunct2, THEN conjunct2, THEN conjunct2, THEN conjunct2,
      THEN conjunct2, THEN conjunct2, THEN conjunct1, rule_format, OF demo_fields(5)]
  note bad7 = bad [THEN conjunct2, THEN conjunct2, THEN conjunct2, THEN conjunct2,
      THEN conjunct2, THEN conjunct2, THEN conjunct1, rule_format, OF demo_fields(5)]
  have v: "map (get_expectation count_le demo) [(ENode 0, pair_graph), (EEdge 0 1, pair_graph)]
     = [Inr 14, Inr 35]"
    using demo_values by simp
  have a: "expectation_calculation 4 hd count_le (demo\<lparr>is_parallel := True\<rparr>) demo_world
       = expectation_calculation_parallel hd count_le (demo\<lparr>is_parallel := True\<rparr>) demo_world"
    by (rule ok3)
  have b: "fst (expectation_calculation_parallel hd count_le demo demo_world) = Inr 49
     \<and> fst (expectation_calculation_serial 4 count_le demo demo_world) = Inr 49"
    using ok7 v by simp
  have c: "expectation_path (fst (snd (expectation_calculation_parallel hd count_le demo demo_world)))
       = [49]"
    unfolding ok2 by (simp add: demo_serial)
  have d: "fst (expectation_calculation_parallel last fail_le demo demo_world) = Inl IndexError
     \<and> fst (expectation_calculation_serial 4 fail_le demo demo_world) = Inl ValueError"
    using bad7 demo_failures by simp
  show ?thesis using demo_fields(5) a b c d by simp
qed

text \<open>
  Claim C7 as stated fails: \<open>run\<close> on an object without a stored matrix leaves one in
  \<open>_qmatrix\<close>, and \<open>expectation_calculation\<close> extends \<open>_expectation_path\<close>.
\<close>

theorem fields_change_counterexample:
  "qmatrix \<lparr>node_num = 2, graph = one_edge, qmatrix = None\<rparr> = None
   \<and> qmatrix (snd (run \<lparr>node_num = 2, graph = one_edge, qmatrix = None\<rparr>))
       = Some [[- 3, 3], [3, - 3]]
   \<and> expectation_path demo = []
   \<and> expectation_path (fst (snd (expectation_calculation 4 hd count_le demo demo_world))) = [49]"
  by (simp add: one_edge_run demo_fields expectation_calculation_def demo_serial)

lemma run_frame:
  "node_num (snd (run mc)) = node_num mc \<and> graph (snd (run mc)) = graph mc
   \<and> qmatrix (snd (run mc)) =
       (case qmatrix mc of
          Some q \<Rightarrow> Some q
        | None \<Rightarrow> (case get_Qmatrix mc of Inl e \<Rightarrow> None | Inr q \<Rightarrow> Some q))"
  by (auto simp: run_def split: option.splits sum.splits)

lemma serial_frame:
  "fst (snd (expectation_calculation_serial cpu_count le self w)) =
     self\<lparr>expectation_path := expectation_path self @
        (case fst (expectation_calculation_serial cpu_count le self w) of
           Inl e \<Rightarrow> [] | Inr v \<Rightarrow> [v])\<rparr>"
  by (auto simp: expectation_calculation_serial_def Let_def record_total_def
      split: option.splits sum.splits)

lemma parallel_frame:
  "fst (snd (expectation_calculation_parallel first_failure le self w)) =
     self\<lparr>expectation_path := expectation_path self @
        (case fst (expectation_calculation_parallel first_failure le self w) of
           Inl e \<Rightarrow> [] | Inr v \<Rightarrow> [v])\<rparr>"
  by (auto simp: expectation_calculation_parallel_def Let_def record_total_def
      split: option.splits sum.splits)

text \<open>
  Claim C7, amended. \<open>run\<close> leaves \<open>_node_num\<close> and \<open>_graph\<close> as they were and changes
  \<open>_qmatrix\<close> only when it was \<open>None\<close>, to the matrix \<open>get_Qmatrix\<close> returns.
  \<open>expectation_calculation\<close> leaves every field but \<open>_expectation_path\<close> as it was and
  appends the total it returns; when it raises, the object is unchanged.
\<close>

theorem run_and_expectation_frame:
  "node_num (snd (run mc)) = node_num mc
   \<and> graph (snd (run mc)) = graph mc
   \<and> qmatrix (snd (run mc)) =
       (case qmatrix mc of
          Some q \<Rightarrow> Some q
        | None \<Rightarrow> (case get_Qmatrix mc of Inl e \<Rightarrow> None | Inr q \<Rightarrow> Some q))
   \<and> fst (snd (expectation_calculation cpu_count first_failure le self w)) =
       self\<lparr>expectation_path := expectation_path self @
          (case fst (expectation_calculation cpu_count first_failure le self w) of
             Inl e \<Rightarrow> [] | Inr v \<Rightarrow> [v])\<rparr>"
  using run_frame [of mc] serial_frame [of cpu_count le self w]
    parallel_frame [of first_failure le self w]
  by (simp add: expectation_calculation_def)

theorem run_and_expectation_frame_witness:
  "snd (run \<lparr>node_num = 2, graph = one_edge, qmatrix = None\<rparr>)
     = \<lparr>node_num = 2, graph = one_edge, qmatrix = Some [[- 3, 3], [3, - 3]]\<rparr>
   \<and> fst (snd (expectation_calculation 4 hd count_le demo demo_world))
     = demo\<lparr>expectation_path := [49]\<rparr>"
  using run_and_expectation_frame [of "\<lparr>node_num = 2, graph = one_edge, qmatrix = None\<rparr>"
      4 hd count_le demo demo_world]
  by (simp add: one_edge_run expectation_calculation_def demo_serial demo_fields)

subsection \<open>The state of least energy\<close>

lemma py_index_in_range:
  assumes "in_range key nd"
  shows "py_index (spin_list key) nd = Inr (spin key nd)"
  using assms
  by (auto simp: py_index_def in_range_def spin_list_def spin_def Let_def)

lemma node_loop:
  assumes "\<And>nw. nw \<in> set nws \<Longrightarrow> in_range key (fst nw)"
  shows "for_each nws (node_term (spin_list key)) a
           = Inr (a + (\<Sum>nw\<leftarrow>nws. snd nw * spin key (fst nw)))"
  using assms
proof (induction nws arbitrary: a)
  case Nil
  show ?case by simp
next
  case (Cons nw nws)
  have "node_term (spin_list key) nw a = Inr (a + snd nw * spin key (fst nw))"
    using Cons.prems [of nw] by (simp add: node_term_def py_index_in_range)
  then show ?case using Cons.IH [of "a + snd nw * spin key (fst nw)"] Cons.prems
    by (simp add: add.assoc)
qed

lemma edge_loop:
  assumes "\<And>ew. ew \<in> set ews \<Longrightarrow> in_range key (fst (fst ew)) \<and> in_range key (snd (fst ew))"
  shows "for_each ews (edge_term (spin_list key)) a
           = Inr (a + (\<Sum>ew\<leftarrow>ews. if fst (fst ew) = snd (fst ew) then 0
                       else snd ew * spin key (fst (fst ew)) * spin key (snd (fst ew))))"
  using assms
proof (induction ews arbitrary: a)
  case Nil
  show ?case by simp
next
  case (Cons ew ews)
  let ?t = "if fst (fst ew) = snd (fst ew) then 0
            else snd ew * spin key (fst (fst ew)) * spin key (snd (fst ew))"
  have "edge_term (spin_list key) ew a = Inr (a + ?t)"
    using Cons.prems [of ew] by (simp add: edge_term_def py_index_in_range)
  then show ?case using Cons.IH [of "a + ?t"] Cons.prems
    by (simp add: add.assoc)
qed

lemma node_attributes_subset:
  "nw \<in> set (get_node_attributes g) \<Longrightarrow> fst nw \<in> set (nodes g)"
  by (force simp: get_node_attributes_def nodes_def split: option.splits)

lemma edge_attributes_subset:
  "ew \<in> set (get_edge_attributes g) \<Longrightarrow> \<exists>d. (fst ew, d) \<in> set (edges g)"
  by (auto simp: get_edge_attributes_def split: option.splits)

lemma key_energy_closed:
  assumes "indexes key g"
  shows "key_energy g key = Inr (energy g key)"
proof -
  have n: "in_range key (fst nw)" if "nw \<in> set (get_node_attributes g)" for nw
    using assms node_attributes_subset [OF that] by (auto simp: indexes_def list_all_iff)
  have e: "in_range key (fst (fst ew)) \<and> in_range key (snd (fst ew))"
    if "ew \<in> set (get_edge_attributes g)" for ew
    using assms edge_attributes_subset [OF that] by (fastforce simp: indexes_def list_all_iff)
  show ?thesis
    by (simp add: key_energy_def Let_def node_loop [OF n] edge_loop [OF e] energy_def)
qed

lemma int_list_bits:
  "bitstring key \<Longrightarrow> int_list key = Inr (bits key)"
  by (induction key) (auto simp: bitstring_def bits_def int_of_char_def Let_def)

lemma small_step_closed:
  assumes "indexes (fst kv) g" "bitstring (fst kv)"
  shows "small_step g kv st =
     Inr (if fst st > energy g (fst kv) then (energy g (fst kv), Some (bits (fst kv))) else st)"
  using assms by (simp add: small_step_def key_energy_closed int_list_bits)

lemma first_min_snoc_new:
  assumes "\<And>j. j < length kvs \<Longrightarrow> energy g (fst kv) < energy g (fst (kvs ! j))"
  shows "first_min g (kvs @ [kv]) (length kvs)"
  using assms by (auto simp: first_min_def nth_append less_Suc_eq intro: less_imp_le)

lemma first_min_snoc_keep:
  assumes "first_min g kvs i" "energy g (fst (kvs ! i)) \<le> energy g (fst kv)"
  shows "first_min g (kvs @ [kv]) i"
  using assms by (auto simp: first_min_def nth_append less_Suc_eq)

lemma small_loop:
  assumes ok: "\<And>kv. kv \<in> set kvs \<Longrightarrow> indexes (fst kv) g \<and> bitstring (fst kv)"
  shows "\<exists>m' r'. for_each kvs (small_step g) (m, r) = Inr (m', r') \<and> m' \<le> m \<and>
     ((\<forall>kv \<in> set kvs. m \<le> energy g (fst kv)) \<longrightarrow> m' = m \<and> r' = r) \<and>
     (\<not> (\<forall>kv \<in> set kvs. m \<le> energy g (fst kv)) \<longrightarrow>
        (\<exists>i. first_min g kvs i \<and> m' = energy g (fst (kvs ! i))
             \<and> r' = Some (bits (fst (kvs ! i)))))"
  using ok
proof (induction kvs rule: rev_induct)
  case Nil
  show ?case by simp
next
  case (snoc kv kvs)
  let ?e = "\<lambda>x. energy g (fst x)"
  let ?all = "\<forall>x \<in> set kvs. m \<le> ?e x"
  obtain m1 r1 where pre: "for_each kvs (small_step g) (m, r) = Inr (m1, r1)"
    and m1le: "m1 \<le> m"
    and inv1: "?all \<longrightarrow> m1 = m \<and> r1 = r"
    and inv2: "\<not> ?all \<longrightarrow> (\<exists>i. first_min g kvs i \<and> m1 = ?e (kvs ! i)
             \<and> r1 = Some (bits (fst (kvs ! i))))"
    using snoc.IH snoc.prems by auto
  have stepok: "small_step g kv (m1, r1) =
     Inr (if m1 > ?e kv then (?e kv, Some (bits (fst kv))) else (m1, r1))"
    using small_step_closed [of kv g "(m1, r1)"] snoc.prems by simp
  have run: "for_each (kvs @ [kv]) (small_step g) (m, r) =
     Inr (if m1 > ?e kv then (?e kv, Some (bits (fst kv))) else (m1, r1))"
    by (simp add: for_each_snoc pre stepok)
  have lower: "m1 \<le> ?e (kvs ! j)" if "j < length kvs" for j
  proof (cases ?all)
    case True
    then show ?thesis using inv1 that by simp
  next
    case False
    then obtain i where "first_min g kvs i" "m1 = ?e (kvs ! i)" using inv2 by blast
    then show ?thesis using that by (simp add: first_min_def)
  qed
  show ?case
  proof (cases "m1 > ?e kv")
    case True
    have lt: "?e kv < ?e (kvs ! j)" if "j < length kvs" for j
      using True lower [OF that] by linarith
    have fm: "first_min g (kvs @ [kv]) (length kvs)"
      by (rule first_min_snoc_new) (rule lt)
    have notall: "\<not> (\<forall>x \<in> set (kvs @ [kv]). m \<le> ?e x)"
      using True m1le by auto
    have r: "for_each (kvs @ [kv]) (small_step g) (m, r) = Inr (?e kv, Some (bits (fst kv)))"
      using run True by simp
    have "?e kv \<le> m" using True m1le by simp
    moreover have "\<exists>i. first_min g (kvs @ [kv]) i \<and> ?e kv = ?e ((kvs @ [kv]) ! i)
             \<and> Some (bits (fst kv)) = Some (bits (fst ((kvs @ [kv]) ! i)))"
      using fm by (intro exI [of _ "length kvs"]) simp
    ultimately show ?thesis using r notall by blast
  next
    case False
    have r: "for_each (kvs @ [kv]) (small_step g) (m, r) = Inr (m1, r1)"
      using run False by simp
    show ?thesis
    proof (cases ?all)
      case True
      then have eq: "m1 = m" "r1 = r" using inv1 by simp_all
      have "\<forall>x \<in> set (kvs @ [kv]). m \<le> ?e x" using True False eq by auto
      then show ?thesis using r eq by auto
    next
      case some: False
      then obtain i where i: "first_min g kvs i" "m1 = ?e (kvs ! i)"
        "r1 = Some (bits (fst (kvs ! i)))"
        using inv2 by blast
      have il: "i < length kvs" using i(1) by (simp add: first_min_def)
      have fm: "first_min g (kvs @ [kv]) i"
        by (rule first_min_snoc_keep [OF i(1)]) (use False i(2) in simp)
      have notall: "\<not> (\<forall>x \<in> set (kvs @ [kv]). m \<le> ?e x)" using some by auto
      have "\<exists>i. first_min g (kvs @ [kv]) i \<and> m1 = ?e ((kvs @ [kv]) ! i)
             \<and> r1 = Some (bits (fst ((kvs @ [kv]) ! i)))"
        using fm i il by (intro exI [of _ i]) (simp add: nth_append)
      then show ?thesis using r notall m1le by blast
    qed
  qed
qed

text \<open>
  Claim C9. Let every key of \<open>state_count\<close> be a string of \<open>0\<close>s and \<open>1\<close>s that indexes
  all nodes of \<open>ising_g\<close>; then the energy the loop computes for a key is \<open>energy\<close>. When
  some key has energy below \<open>999999\<close>, \<open>get_most_small_ising\<close> returns the digits of the
  first key, in the order of the dictionary, whose energy is the least; when every key
  has energy \<open>999999\<close> or more, it raises \<open>UnboundLocalError\<close>.
\<close>

theorem get_most_small_ising_first_minimum:
  assumes "\<forall>kv \<in> set state_count. indexes (fst kv) ising_g \<and> bitstring (fst kv)"
  shows "((\<forall>kv \<in> set state_count. 999999 \<le> energy ising_g (fst kv)) \<longrightarrow>
            get_most_small_ising state_count ising_g = Inl UnboundLocalError)
       \<and> (\<not> (\<forall>kv \<in> set state_count. 999999 \<le> energy ising_g (fst kv)) \<longrightarrow>
            (\<exists>i. first_min ising_g state_count i
                \<and> get_most_small_ising state_count ising_g = Inr (bits (fst (state_count ! i)))))
       \<and> (\<forall>kv \<in> set state_count. key_energy ising_g (fst kv) = Inr (energy ising_g (fst kv)))"
proof -
  let ?all = "\<forall>kv \<in> set state_count. 999999 \<le> energy ising_g (fst kv)"
  obtain m' r' where l: "for_each state_count (small_step ising_g) (999999, None) = Inr (m', r')"
    and c1: "?all \<longrightarrow> m' = 999999 \<and> r' = None"
    and c2: "\<not> ?all \<longrightarrow> (\<exists>i. first_min ising_g state_count i
             \<and> m' = energy ising_g (fst (state_count ! i))
             \<and> r' = Some (bits (fst (state_count ! i))))"
    using small_loop [of state_count ising_g 999999 None] assms by blast
  have k: "\<forall>kv \<in> set state_count. key_energy ising_g (fst kv) = Inr (energy ising_g (fst kv))"
    using assms key_energy_closed by blast
  have a: "get_most_small_ising state_count ising_g = Inl UnboundLocalError" if ?all
    using l c1 that by (simp add: get_most_small_ising_def)
  have b: "\<exists>i. first_min ising_g state_count i
                \<and> get_most_small_ising state_count ising_g = Inr (bits (fst (state_count ! i)))"
    if na: "\<not> ?all"
  proof -
    obtain i where i: "first_min ising_g state_count i" "r' = Some (bits (fst (state_count ! i)))"
      using c2 na by blast
    have "get_most_small_ising state_count ising_g = Inr (bits (fst (state_count ! i)))"
      using l i(2) by (simp add: get_most_small_ising_def)
    then show ?thesis using i(1) by blast
  qed
  show ?thesis using a b k by blast
qed

lemma ising_pair_eval:
  "ising_pair = \<lparr>node_attr = [(0, Some 1), (1, Some 1)],
      adj = [(0, [(1, Some 2)]), (1, [(0, Some 2)])]\<rparr>"
  by (simp add: ising_pair_def add_edge_def add_node_def touch_node_def has_node_def
      empty_graph_def Let_def)

lemma ising_pair_views:
  "nodes ising_pair = [0, 1]" "edges ising_pair = [((0, 1), Some 2)]"
  "get_node_attributes ising_pair = [(0, 1), (1, 1)]"
  "get_edge_attributes ising_pair = [((0, 1), 2)]"
  by (simp_all add: ising_pair_eval nodes_def edges_def get_node_attributes_def
      get_edge_attributes_def)

lemma ising_pair_energies:
  "energy ising_pair ''11'' = 4" "energy ising_pair ''01'' = - 2"
  "energy ising_pair ''10'' = - 2" "energy ising_pair ''00'' = 0"
  by (simp_all add: energy_def ising_pair_views spin_def)

lemma counts_ok: "\<forall>kv \<in> set counts. indexes (fst kv) ising_pair \<and> bitstring (fst kv)"
  by (simp add: counts_def indexes_def bitstring_def in_range_def ising_pair_views)

lemma heavy_node_views:
  "nodes heavy_node = [0]" "edges heavy_node = []"
  "get_node_attributes heavy_node = [(0, 999999)]" "get_edge_attributes heavy_node = []"
  by (simp_all add: heavy_node_def add_node_def has_node_def empty_graph_def nodes_def edges_def
      get_node_attributes_def get_edge_attributes_def)

lemma first_min_least:
  "first_min g kvs i \<Longrightarrow> j < length kvs \<Longrightarrow>
     energy g (fst (kvs ! i)) \<le> energy g (fst (kvs ! j))"
  by (simp add: first_min_def)

lemma first_min_earlier:
  "first_min g kvs i \<Longrightarrow> j < i \<Longrightarrow> energy g (fst (kvs ! i)) < energy g (fst (kvs ! j))"
  by (simp add: first_min_def)

theorem get_most_small_ising_first_minimum_witness:
  "list_all (\<lambda>kv. indexes (fst kv) ising_pair \<and> bitstring (fst kv)) counts
   \<and> get_most_small_ising counts ising_pair = Inr [0, 1]
   \<and> get_most_small_ising [(''1'', 1 :: nat)] heavy_node = Inl UnboundLocalError"
proof -
  have na: "\<not> (\<forall>kv \<in> set counts. 999999 \<le> energy ising_pair (fst kv))"
    by (simp add: counts_def ising_pair_energies)
  obtain i where i: "first_min ising_pair counts i"
    "get_most_small_ising counts ising_pair = Inr (bits (fst (counts ! i)))"
    using get_most_small_ising_first_minimum [OF counts_ok] na by blast
  have len: "i < 4" using i(1) by (simp add: first_min_def counts_def)
  have e: "energy ising_pair (fst (counts ! 0)) = 4" "energy ising_pair (fst (counts ! 1)) = - 2"
    "energy ising_pair (fst (counts ! 2)) = - 2" "energy ising_pair (fst (counts ! 3)) = 0"
    by (simp_all add: counts_def ising_pair_energies)
  have le1: "energy ising_pair (fst (counts ! i)) \<le> energy ising_pair (fst (counts ! 1))"
    by (rule first_min_least [OF i(1)]) (simp add: counts_def)
  have i0: "i \<noteq> 0"
  proof
    assume "i = 0"
    then show False using le1 e by simp
  qed
  have i3: "i \<noteq> 3"
  proof
    assume "i = 3"
    then show False using le1 e by simp
  qed
  have i2: "i \<noteq> 2"
  proof
    assume i: "i = 2"
    have "energy ising_pair (fst (counts ! i)) < energy ising_pair (fst (counts ! 1))"
      by (rule first_min_earlier [OF \<open>first_min ising_pair counts i\<close>]) (simp add: i)
    then show False using e i by simp
  qed
  have "i = 1" using len i0 i2 i3 by arith
  then have a: "get_most_small_ising counts ising_pair = Inr [0, 1]"
    using i(2) by (simp add: counts_def bits_def)
  have hk: "\<forall>kv \<in> set [(''1'', 1 :: nat)]. indexes (fst kv) heavy_node \<and> bitstring (fst kv)"
    by (simp add: indexes_def bitstring_def in_range_def heavy_node_views)
  have he: "\<forall>kv \<in> set [(''1'', 1 :: nat)]. 999999 \<le> energy heavy_node (fst kv)"
    by (simp add: energy_def heavy_node_views spin_def)
  have b: "get_most_small_ising [(''1'', 1 :: nat)] heavy_node = Inl UnboundLocalError"
    using get_most_small_ising_first_minimum [OF hk] he by blast
  show ?thesis using counts_ok a b by (simp add: list_all_iff)
qed

subsection \<open>The weighted graph of a matrix\<close>

lemma has_node_keys: "has_node g n \<longleftrightarrow> n \<in> fst ` set (node_attr g)"
  by (simp add: has_node_def map_of_eq_None_iff)

lemma set_update_subset: "set (AList.update k v al) \<subseteq> insert (k, v) (set al)"
  by (induction al) auto

lemma set_map_entry_cases:
  "q \<in> set (AList.map_entry k f xs) \<Longrightarrow> q \<in> set xs \<or> (\<exists>v. (k, v) \<in> set xs \<and> q = (k, f v))"
  by (induction xs) (auto split: if_splits)

lemma graph_ok_empty: "graph_ok empty_graph"
  by (simp add: graph_ok_def empty_graph_def)

lemma graph_ok_new_node:
  assumes "graph_ok g" "\<not> has_node g n"
  shows "graph_ok (g\<lparr>adj := AList.update n [] (adj g),
                     node_attr := AList.update n d (node_attr g)\<rparr>)"
proof -
  have "list_all (\<lambda>p. distinct (map fst (snd p))) (AList.update n [] (adj g))"
    using assms(1) set_update_subset [of n "[]" "adj g"]
    by (auto simp: graph_ok_def list_all_iff)
  then show ?thesis
    using assms(1) by (simp add: graph_ok_def distinct_update dom_update)
qed

lemma graph_ok_add_node: "graph_ok g \<Longrightarrow> graph_ok (add_node n w g)"
proof (cases "has_node g n")
  case True
  assume "graph_ok g"
  then show ?thesis using True
    by (auto simp: add_node_def graph_ok_def distinct_update dom_update has_node_keys)
next
  case False
  assume "graph_ok g"
  then show ?thesis using False by (simp add: add_node_def graph_ok_new_node)
qed

lemma graph_ok_touch_node: "graph_ok g \<Longrightarrow> graph_ok (touch_node n g)"
  by (simp add: touch_node_def graph_ok_new_node)

lemma node_attr_add_node:
  "map_of (node_attr (add_node n w g)) = (map_of (node_attr g))(n \<mapsto> Some w)"
  by (simp add: add_node_def update_conv')

lemma node_attr_touch_node:
  "map_of (node_attr (touch_node n g)) =
     (if has_node g n then map_of (node_attr g) else (map_of (node_attr g))(n \<mapsto> None))"
  by (simp add: touch_node_def update_conv')

lemma adj_new_key:
  assumes "graph_ok g" "\<not> has_node g n"
  shows "map_of (adj g) n = None"
proof -
  have "n \<notin> fst ` set (adj g)" using assms by (simp add: graph_ok_def has_node_keys)
  then show ?thesis by (simp add: map_of_eq_None_iff)
qed

lemma edge_data_new_node:
  assumes "graph_ok g" "\<not> has_node g n"
  shows "edge_data (g\<lparr>adj := AList.update n [] (adj g), node_attr := na\<rparr>) u v = edge_data g u v"
  using adj_new_key [OF assms] by (simp add: edge_data_def update_conv')

lemma edge_data_add_node:
  "graph_ok g \<Longrightarrow> edge_data (add_node n w g) u v = edge_data g u v"
  by (cases "has_node g n") (simp_all add: add_node_def edge_data_new_node, simp add: edge_data_def)

lemma edge_data_touch_node:
  "graph_ok g \<Longrightarrow> edge_data (touch_node n g) u v = edge_data g u v"
  by (simp add: touch_node_def edge_data_new_node)

lemma has_node_touch_node: "has_node (touch_node n g) m \<longleftrightarrow> has_node g m \<or> m = n"
  by (auto simp: touch_node_def has_node_keys dom_update)

lemma adj_key_of_node:
  assumes "graph_ok g" "has_node g n"
  shows "\<exists>nbrs. map_of (adj g) n = Some nbrs"
proof -
  have "n \<in> fst ` set (adj g)" using assms by (simp add: graph_ok_def has_node_keys)
  then show ?thesis by (cases "map_of (adj g) n") (simp_all add: map_of_eq_None_iff)
qed

lemma graph_ok_add_edge:
  assumes "graph_ok g"
  shows "graph_ok (add_edge u v w g)"
proof -
  let ?g1 = "touch_node v (touch_node u g)"
  let ?a1 = "AList.map_entry u (AList.update v (Some w)) (adj ?g1)"
  let ?a2 = "AList.map_entry v (AList.update u (Some w)) ?a1"
  have ok1: "graph_ok ?g1" using assms by (simp add: graph_ok_touch_node)
  have inner1: "list_all (\<lambda>p. distinct (map fst (snd p))) ?a1"
    unfolding list_all_iff
  proof
    fix q assume "q \<in> set ?a1"
    then consider "q \<in> set (adj ?g1)"
      | x where "(u, x) \<in> set (adj ?g1)" "q = (u, AList.update v (Some w) x)"
      using set_map_entry_cases by fast
    then show "distinct (map fst (snd q))"
    proof cases
      case 1
      then show ?thesis using ok1 by (auto simp: graph_ok_def list_all_iff)
    next
      case 2
      then have "distinct (map fst x)" using ok1 by (force simp: graph_ok_def list_all_iff)
      then show ?thesis using 2 by (simp add: distinct_update)
    qed
  qed
  have inner2: "list_all (\<lambda>p. distinct (map fst (snd p))) ?a2"
    unfolding list_all_iff
  proof
    fix q assume "q \<in> set ?a2"
    then consider "q \<in> set ?a1"
      | x where "(v, x) \<in> set ?a1" "q = (v, AList.update u (Some w) x)"
      using set_map_entry_cases by fast
    then show "distinct (map fst (snd q))"
    proof cases
      case 1
      then show ?thesis using inner1 by (auto simp: list_all_iff)
    next
      case 2
      then have "distinct (map fst x)" using inner1 by (force simp: list_all_iff)
      then show ?thesis using 2 by (simp add: distinct_update)
    qed
  qed
  show ?thesis
    using ok1 inner2
    by (simp add: add_edge_def Let_def graph_ok_def distinct_map_entry dom_map_entry)
qed

lemma node_attr_add_edge:
  "map_of (node_attr (add_edge u v w g)) a =
     (case map_of (node_attr g) a of
        Some d \<Rightarrow> Some d
      | None \<Rightarrow> if a = u \<or> a = v then Some None else None)"
  by (auto simp: add_edge_def Let_def node_attr_touch_node has_node_touch_node has_node_def
      split: option.splits)

lemma edge_data_add_edge:
  assumes "graph_ok g"
  shows "edge_data (add_edge u v w g) a b =
     (if (a = u \<and> b = v) \<or> (a = v \<and> b = u) then Some (Some w) else edge_data g a b)"
proof -
  let ?g1 = "touch_node v (touch_node u g)"
  have ok1: "graph_ok ?g1" using assms by (simp add: graph_ok_touch_node)
  have e1: "edge_data ?g1 a b = edge_data g a b" for a b
    using assms by (simp add: edge_data_touch_node graph_ok_touch_node)
  obtain nu where nu: "map_of (adj ?g1) u = Some nu"
    using adj_key_of_node [OF ok1, of u] by (auto simp: has_node_touch_node)
  obtain nv where nv: "map_of (adj ?g1) v = Some nv"
    using adj_key_of_node [OF ok1, of v] by (auto simp: has_node_touch_node)
  have "edge_data (add_edge u v w g) a b =
     (if (a = u \<and> b = v) \<or> (a = v \<and> b = u) then Some (Some w) else edge_data ?g1 a b)"
    using nu nv
    by (auto simp: add_edge_def Let_def edge_data_def map_of_map_entry update_conv'
        split: option.splits)
  then show ?thesis by (simp add: e1)
qed

lemma for_each_map:
  "for_each (map h ys) body s = for_each ys (\<lambda>y. body (h y)) s"
  by (induction ys arbitrary: s) (auto split: sum.splits)

lemma for_each_product:
  "for_each xs (\<lambda>i. for_each ys (f i)) s
     = for_each (List.product xs ys) (\<lambda>q. f (fst q) (snd q)) s"
proof (induction xs arbitrary: s)
  case Nil
  show ?case by simp
next
  case (Cons x xs)
  show ?case
    by (cases "for_each ys (f x) s") (simp_all add: for_each_append for_each_map Cons.IH)
qed

lemma built_from_empty: "built_from m {} empty_graph"
  using graph_ok_empty [where 'a = nat]
  by (simp add: built_from_def linked_def empty_graph_def edge_data_def)

lemma linked_insert_diag: "linked m (insert (i, i) P) = linked m P"
  by (intro ext) (auto simp: linked_def coupled_def)

lemma built_from_diag:
  assumes "built_from m P g"
  shows "built_from m (insert (i, i) P) (add_node i (m ! i ! i) g)"
  using assms
  by (auto simp: built_from_def graph_ok_add_node node_attr_add_node edge_data_add_node
      linked_insert_diag)

lemma linked_insert_skip:
  assumes "\<not> coupled m i j" "\<not> coupled m j i"
  shows "linked m (insert (i, j) P) = linked m P"
  using assms by (intro ext) (auto simp: linked_def)

lemma built_from_skip:
  assumes "built_from m P g" "i \<noteq> j" "\<not> coupled m i j" "\<not> coupled m j i"
  shows "built_from m (insert (i, j) P) g"
  using assms by (simp add: built_from_def linked_insert_skip)

lemma coupled_sym: "m ! j ! i = m ! i ! j \<Longrightarrow> coupled m j i \<longleftrightarrow> coupled m i j"
  by (auto simp: coupled_def)

lemma linked_insert_edge:
  assumes "coupled m i j" "m ! j ! i = m ! i ! j"
  shows "linked m (insert (i, j) P) a b \<longleftrightarrow>
           linked m P a b \<or> (a = i \<and> b = j) \<or> (a = j \<and> b = i)"
  using assms coupled_sym [OF assms(2)] by (auto simp: linked_def)

lemma built_from_edge:
  assumes b: "built_from m P g" and c: "coupled m i j" and s: "m ! j ! i = m ! i ! j"
  shows "built_from m (insert (i, j) P) (add_edge i j (m ! i ! j) g)"
proof -
  have ok: "graph_ok g" using b by (simp add: built_from_def)
  have ij: "i \<noteq> j" using c by (simp add: coupled_def)
  have n: "map_of (node_attr g) a =
              (if (a, a) \<in> P then Some (Some (m ! a ! a))
               else if \<exists>b. linked m P a b then Some None else None)" for a
    using b by (simp add: built_from_def)
  have e: "edge_data g a b = (if linked m P a b then Some (Some (m ! a ! b)) else None)" for a b
    using b by (simp add: built_from_def)
  have l: "linked m (insert (i, j) P) a b \<longleftrightarrow>
           linked m P a b \<or> (a = i \<and> b = j) \<or> (a = j \<and> b = i)" for a b
    by (rule linked_insert_edge [OF c s])
  have n': "map_of (node_attr (add_edge i j (m ! i ! j) g)) a =
              (if (a, a) \<in> insert (i, j) P then Some (Some (m ! a ! a))
               else if \<exists>b. linked m (insert (i, j) P) a b then Some None else None)" for a
  proof -
    have ex: "(\<exists>b. linked m (insert (i, j) P) a b) \<longleftrightarrow> (\<exists>b. linked m P a b) \<or> a = i \<or> a = j"
      unfolding l by blast
    show ?thesis
      unfolding node_attr_add_edge n ex using ij by auto
  qed
  have e': "edge_data (add_edge i j (m ! i ! j) g) a b =
              (if linked m (insert (i, j) P) a b then Some (Some (m ! a ! b)) else None)" for a b
    unfolding edge_data_add_edge [OF ok] e l using s by auto
  show ?thesis
    using graph_ok_add_edge [OF ok] n' e' by (simp add: built_from_def)
qed

lemma weights_entry_step:
  assumes sq: "square n m" and sym: "symmetric n m" and i: "i < n" and j: "j < n"
    and nm: "\<And>k. k < n \<Longrightarrow> nm k = k" and b: "built_from m P g"
  shows "\<exists>g'. weights_entry m nm i j g = Inr g' \<and> built_from m (insert (i, j) P) g'"
proof -
  have get: "mat_get m i j = Inr (m ! i ! j)" "mat_get m i i = Inr (m ! i ! i)"
    using sq i j by (simp_all add: mat_get_def square_length square_rows)
  have s: "m ! j ! i = m ! i ! j" using sym i j by (simp add: symmetric_def)
  show ?thesis
  proof (cases "i = j")
    case True
    then show ?thesis
      using built_from_diag [OF b, of i] get nm [OF i] by (simp add: weights_entry_def)
  next
    case ne: False
    show ?thesis
    proof (cases "coupled m i j")
      case True
      then have "weights_entry m nm i j g = Inr (add_edge i j (m ! i ! j) g)"
        using ne get nm [OF i] nm [OF j] by (simp add: weights_entry_def coupled_def)
      then show ?thesis using built_from_edge [OF b True s] by simp
    next
      case False
      then have "weights_entry m nm i j g = Inr g"
        using ne get by (simp add: weights_entry_def coupled_def)
      moreover have "\<not> coupled m j i" using False coupled_sym [OF s] by simp
      ultimately show ?thesis using built_from_skip [OF b ne False] by simp
    qed
  qed
qed

lemma weights_loop:
  assumes sq: "square n m" and sym: "symmetric n m"
    and nm: "\<And>k. k < n \<Longrightarrow> nm k = k"
    and ps: "\<And>q. q \<in> set ps \<Longrightarrow> fst q < n \<and> snd q < n"
  shows "\<exists>g. for_each ps (\<lambda>q. weights_entry m nm (fst q) (snd q)) empty_graph = Inr g
            \<and> built_from m (set ps) g"
  using ps
proof (induction ps rule: rev_induct)
  case Nil
  show ?case by (simp add: built_from_empty)
next
  case (snoc q ps)
  then obtain g where g: "for_each ps (\<lambda>q. weights_entry m nm (fst q) (snd q)) empty_graph = Inr g"
    "built_from m (set ps) g"
    by auto
  obtain g' where g': "weights_entry m nm (fst q) (snd q) g = Inr g'"
    "built_from m (insert (fst q, snd q) (set ps)) g'"
    using weights_entry_step [OF sq sym _ _ nm g(2), of "fst q" "snd q"] snoc.prems by auto
  show ?case using g g' by (simp add: for_each_snoc)
qed

lemma get_weights_graph_built:
  assumes sq: "square n m" and sym: "symmetric n m"
  shows "\<exists>g. get_weights_graph m None = Inr g \<and> built_from m ({..<n} \<times> {..<n}) g"
proof -
  have len: "length m = n" using sq by (simp add: square_length)
  have set: "{0..<n} \<times> {0..<n} = {..<n} \<times> {..<n}" by auto
  have "\<exists>g. for_each (List.product [0..<n] [0..<n])
               (\<lambda>q. weights_entry m (node_map n None) (fst q) (snd q)) empty_graph = Inr g
            \<and> built_from m (set (List.product [0..<n] [0..<n])) g"
    by (rule weights_loop [OF sq sym]) (auto simp: node_map_def)
  then show ?thesis
    by (simp add: get_weights_graph_def Let_def len for_each_product set)
qed

lemma edges_from_sound:
  "((u, v), d) \<in> set (edges_from seen al) \<Longrightarrow> \<exists>nbrs. (u, nbrs) \<in> set al \<and> (v, d) \<in> set nbrs"
  by (induction seen al rule: edges_from.induct) auto

lemma edges_from_complete:
  assumes "distinct (map fst al)" "(u, nu) \<in> set al" "(v, d) \<in> set nu"
    "(v, nv) \<in> set al" "(u, d') \<in> set nv" "u \<notin> set seen" "v \<notin> set seen"
  shows "((u, v), d) \<in> set (edges_from seen al) \<or> ((v, u), d') \<in> set (edges_from seen al)"
  using assms
proof (induction seen al rule: edges_from.induct)
  case (1 seen)
  then show ?case by simp
next
  case (2 seen n nbrs rest)
  show ?case
  proof (cases "n = u")
    case True
    then have "nu = nbrs" using "2.prems"(1,2) by (auto simp: image_iff)
    then have "((u, v), d) \<in> set (edges_from seen ((n, nbrs) # rest))"
      using True "2.prems"(3,7) by force
    then show ?thesis by simp
  next
    case nu: False
    show ?thesis
    proof (cases "n = v")
      case True
      then have "nv = nbrs" using "2.prems"(1,4) by (auto simp: image_iff)
      then have "((v, u), d') \<in> set (edges_from seen ((n, nbrs) # rest))"
        using True "2.prems"(5,6) by force
      then show ?thesis by simp
    next
      case False
      have "((u, v), d) \<in> set (edges_from (n # seen) rest)
            \<or> ((v, u), d') \<in> set (edges_from (n # seen) rest)"
        using "2.prems" nu False by (intro "2.IH") auto
      then show ?thesis by auto
    qed
  qed
qed

lemma map_of_member:
  "distinct (map fst al) \<Longrightarrow> (k, x) \<in> set al \<Longrightarrow> map_of al k = Some x"
  by simp

lemma edges_sound:
  assumes "graph_ok g" "((u, v), d) \<in> set (edges g)"
  shows "edge_data g u v = Some d"
proof -
  obtain nbrs where n: "(u, nbrs) \<in> set (adj g)" "(v, d) \<in> set nbrs"
    using edges_from_sound assms(2) unfolding edges_def by fast
  have "distinct (map fst nbrs)" using assms(1) n(1) by (force simp: graph_ok_def list_all_iff)
  then have "map_of nbrs v = Some d" using n(2) by simp
  moreover have "map_of (adj g) u = Some nbrs" using assms(1) n(1) by (simp add: graph_ok_def)
  ultimately show ?thesis by (simp add: edge_data_def)
qed

lemma edges_complete:
  assumes "graph_ok g" "edge_data g u v = Some d" "edge_data g v u = Some d'"
  shows "((u, v), d) \<in> set (edges g) \<or> ((v, u), d') \<in> set (edges g)"
proof -
  obtain nu where nu: "map_of (adj g) u = Some nu" "map_of nu v = Some d"
    using assms(2) by (auto simp: edge_data_def split: option.splits)
  obtain nv where nv: "map_of (adj g) v = Some nv" "map_of nv u = Some d'"
    using assms(3) by (auto simp: edge_data_def split: option.splits)
  have "distinct (map fst (adj g))" using assms(1) by (simp add: graph_ok_def)
  then show ?thesis
    unfolding edges_def
    using nu nv by (intro edges_from_complete [where nu = nu and nv = nv]) (auto dest: map_of_SomeD)
qed

lemma built_all_nodes:
  assumes "built_from m ({..<n} \<times> {..<n}) g"
  shows "map_of (node_attr g) a = (if a < n then Some (Some (m ! a ! a)) else None)"
proof -
  have "\<not> linked m ({..<n} \<times> {..<n}) a b" if "\<not> a < n" for b
    using that by (auto simp: linked_def)
  then show ?thesis using assms by (auto simp: built_from_def)
qed

lemma built_all_edges:
  assumes "built_from m ({..<n} \<times> {..<n}) g"
  shows "edge_data g a b =
     (if a < n \<and> b < n \<and> coupled m a b then Some (Some (m ! a ! b)) else None)"
proof -
  have "linked m ({..<n} \<times> {..<n}) a b \<longleftrightarrow> a < n \<and> b < n \<and> coupled m a b"
    by (auto simp: linked_def)
  then show ?thesis using assms by (simp add: built_from_def)
qed

lemma coupled_iff: "coupled m i j \<longleftrightarrow> i \<noteq> j \<and> 1 / 10 ^ 8 < \<bar>m ! i ! j\<bar>"
  by (auto simp: coupled_def)

text \<open>
  Claim C5. For a symmetric \<open>n \<times> n\<close> matrix \<open>m\<close>, \<open>get_weights_graph m None\<close> returns a
  graph whose nodes are exactly \<open>0, \<dots>, n - 1\<close>, node \<open>i\<close> with weight \<open>m[i][i]\<close>. There is
  an edge between \<open>i\<close> and \<open>j\<close> exactly when \<open>i \<noteq> j\<close> and \<open>|m[i][j]| > 1e-8\<close>, and its weight
  is \<open>m[i][j]\<close>; the same holds for the edges as \<open>G.edges\<close> reports them, read as
  unordered pairs.
\<close>

theorem get_weights_graph_correct:
  assumes "square n m" and "symmetric n m"
  shows "\<exists>g. get_weights_graph m None = Inr g
     \<and> set (nodes g) = {..<n} \<and> distinct (nodes g)
     \<and> (\<forall>i<n. map_of (node_attr g) i = Some (Some (m ! i ! i)))
     \<and> (\<forall>i j. has_edge g i j \<longleftrightarrow> i < n \<and> j < n \<and> i \<noteq> j \<and> 1 / 10 ^ 8 < \<bar>m ! i ! j\<bar>)
     \<and> (\<forall>i j. has_edge g i j \<longrightarrow> edge_data g i j = Some (Some (m ! i ! j)))
     \<and> (\<lambda>e. {fst (fst e), snd (fst e)}) ` set (edges g)
         = {{i, j} | i j. i < n \<and> j < n \<and> i \<noteq> j \<and> 1 / 10 ^ 8 < \<bar>m ! i ! j\<bar>}
     \<and> (\<forall>e \<in> set (edges g). snd e = Some (m ! fst (fst e) ! snd (fst e)))"
proof -
  obtain g where run: "get_weights_graph m None = Inr g"
    and b: "built_from m ({..<n} \<times> {..<n}) g"
    using get_weights_graph_built [OF assms] by blast
  have ok: "graph_ok g" using b by (simp add: built_from_def)
  note nd = built_all_nodes [OF b]
  note ed = built_all_edges [OF b]
  have sym: "coupled m j i \<longleftrightarrow> coupled m i j" if "i < n" "j < n" for i j
    using assms(2) that by (intro coupled_sym) (simp add: symmetric_def)
  have "fst ` set (node_attr g) = dom (map_of (node_attr g))"
    by (simp add: dom_map_of_conv_image_fst)
  also have "\<dots> = {..<n}" by (auto simp: dom_def nd)
  finally have nodes_set: "set (nodes g) = {..<n}" by (simp add: nodes_def)
  have nodes_distinct: "distinct (nodes g)" using ok by (simp add: graph_ok_def nodes_def)
  have attr: "\<forall>i<n. map_of (node_attr g) i = Some (Some (m ! i ! i))" by (simp add: nd)
  have he: "\<forall>i j. has_edge g i j \<longleftrightarrow> i < n \<and> j < n \<and> i \<noteq> j \<and> 1 / 10 ^ 8 < \<bar>m ! i ! j\<bar>"
    by (simp add: has_edge_def ed coupled_iff)
  have hw: "\<forall>i j. has_edge g i j \<longrightarrow> edge_data g i j = Some (Some (m ! i ! j))"
    by (simp add: has_edge_def ed)
  have view: "(\<lambda>e. {fst (fst e), snd (fst e)}) ` set (edges g)
         = {{i, j} | i j. i < n \<and> j < n \<and> i \<noteq> j \<and> 1 / 10 ^ 8 < \<bar>m ! i ! j\<bar>}" (is "?L = ?R")
  proof (rule set_eqI, rule iffI)
    fix s assume "s \<in> ?L"
    then obtain u v d where e: "((u, v), d) \<in> set (edges g)" "s = {u, v}" by auto
    have "edge_data g u v = Some d" by (rule edges_sound [OF ok e(1)])
    then have "u < n \<and> v < n \<and> coupled m u v" unfolding ed by (simp split: if_splits)
    then show "s \<in> ?R" using e(2) by (auto simp: coupled_iff)
  next
    fix s assume "s \<in> ?R"
    then obtain i j where ij: "s = {i, j}" "i < n" "j < n" "coupled m i j"
      by (auto simp: coupled_iff)
    have 1: "edge_data g i j = Some (Some (m ! i ! j))" using ij by (simp add: ed)
    have 2: "edge_data g j i = Some (Some (m ! j ! i))" using ij sym [of i j] by (simp add: ed)
    have "((i, j), Some (m ! i ! j)) \<in> set (edges g) \<or> ((j, i), Some (m ! j ! i)) \<in> set (edges g)"
      by (rule edges_complete [OF ok 1 2])
    then show "s \<in> ?L"
    proof
      assume "((i, j), Some (m ! i ! j)) \<in> set (edges g)"
      then show ?thesis using ij(1) by force
    next
      assume "((j, i), Some (m ! j ! i)) \<in> set (edges g)"
      then have "{j, i} \<in> ?L" by force
      then show ?thesis using ij(1) by (simp add: insert_commute)
    qed
  qed
  have wts: "\<forall>e \<in> set (edges g). snd e = Some (m ! fst (fst e) ! snd (fst e))"
  proof
    fix e assume e: "e \<in> set (edges g)"
    then have "((fst (fst e), snd (fst e)), snd e) \<in> set (edges g)" by simp
    then have "edge_data g (fst (fst e)) (snd (fst e)) = Some (snd e)"
      by (rule edges_sound [OF ok])
    then show "snd e = Some (m ! fst (fst e) ! snd (fst e))"
      unfolding ed by (simp split: if_splits)
  qed
  show ?thesis
    by (intro exI [of _ g] conjI run nodes_set nodes_distinct attr he hw view wts)
qed

lemma sparse_weights:
  "get_weights_graph [[1, 0, 1 / 4], [0, 2, 0], [1 / 4, 0, 3]] None =
     Inr \<lparr>node_attr = [(0, Some 1), (2, Some 3), (1, Some 2)],
          adj = [(0, [(2, Some (1 / 4))]), (2, [(0, Some (1 / 4))]), (1, [])]\<rparr>"
  by code_simp

theorem get_weights_graph_correct_witness:
  "square 3 [[1, 0, 1 / 4], [0, 2, 0], [1 / 4, 0, 3]]
   \<and> symmetric 3 [[1, 0, 1 / 4], [0, 2, 0], [1 / 4, 0, 3]]
   \<and> get_weights_graph [[1, 0, 1 / 4], [0, 2, 0], [1 / 4, 0, 3]] None =
       Inr \<lparr>node_attr = [(0, Some 1), (2, Some 3), (1, Some 2)],
            adj = [(0, [(2, Some (1 / 4))]), (2, [(0, Some (1 / 4))]), (1, [])]\<rparr>
   \<and> set (nodes \<lparr>node_attr = [(0, Some 1), (2, Some 3), (1 :: nat, Some 2)],
            adj = [(0, [(2, Some (1 / 4))]), (2, [(0, Some (1 / 4))]), (1, [])]\<rparr>) = {..<3}
   \<and> has_edge \<lparr>node_attr = [(0, Some 1), (2, Some 3), (1 :: nat, Some 2)],
            adj = [(0, [(2, Some (1 / 4))]), (2, [(0, Some (1 / 4))]), (1, [])]\<rparr> 0 2
   \<and> \<not> has_edge \<lparr>node_attr = [(0, Some 1), (2, Some 3), (1 :: nat, Some 2)],
            adj = [(0, [(2, Some (1 / 4))]), (2, [(0, Some (1 / 4))]), (1, [])]\<rparr> 0 1"
proof -
  let ?m = "[[1, 0, 1 / 4], [0, 2, 0], [1 / 4, 0, 3 :: real]]"
  let ?G = "\<lparr>node_attr = [(0, Some 1), (2, Some 3), (1 :: nat, Some 2)],
            adj = [(0, [(2, Some (1 / 4))]), (2, [(0, Some (1 / 4))]), (1, [])]\<rparr>"
  have sq: "square 3 ?m" by (simp add: square_def)
  have sym: "symmetric 3 ?m" by (simp add: symmetric_def less_Suc_eq numeral_3_eq_3)
  obtain g where g: "get_weights_graph ?m None = Inr g" "set (nodes g) = {..<3}"
    "\<forall>i j. has_edge g i j \<longleftrightarrow> i < 3 \<and> j < 3 \<and> i \<noteq> j \<and> 1 / 10 ^ 8 < \<bar>?m ! i ! j\<bar>"
    using get_weights_graph_correct [OF sq sym] by (elim exE conjE) (rule that; assumption)
  have eq: "g = ?G" using g(1) unfolding sparse_weights by simp
  have h1: "has_edge g 0 2"
    using g(3) [rule_format, of 0 2] by simp
  have h2: "\<not> has_edge g 0 1"
    using g(3) [rule_format, of 0 1] by simp
  show ?thesis
    using sq sym g(2) h1 h2 unfolding eq by (simp only: sparse_weights simp_thms)
qed

subsection \<open>The entries of the Ising matrix\<close>

text \<open>
  On a square matrix \<open>get_ising_matrix\<close> returns, and the entries are the ones of
  \<open>ising_value\<close>: \<open>q[i][i]/2 + (sum of row i) - q[i][i]\<close> on the diagonal and \<open>q[i][j]/4\<close>
  off it.
\<close>

lemma ising_entry_step:
  assumes sq: "square n q" and sa: "square n a" and i: "i < n" and j: "j < n"
  shows "ising_entry q i j a = Inr (a[i := (a ! i)[j := ising_value q i j]])"
  using assms
  by (simp add: ising_entry_def mat_get_def mat_set_def row_sum_def square_length square_rows
      ising_value_def)

lemma square_update:
  assumes "square n a" "i < n"
  shows "square n (a[i := (a ! i)[j := v]])"
  using assms by (auto simp: square_def list_all_length nth_list_update)

lemma ising_loop:
  assumes sq: "square n q" and sa: "square n a0"
    and ps: "\<And>p. p \<in> set ps \<Longrightarrow> fst p < n \<and> snd p < n"
  shows "\<exists>a. for_each ps (\<lambda>p. ising_entry q (fst p) (snd p)) a0 = Inr a \<and> square n a
     \<and> (\<forall>i<n. \<forall>j<n. a ! i ! j = (if (i, j) \<in> set ps then ising_value q i j else a0 ! i ! j))"
  using ps
proof (induction ps rule: rev_induct)
  case Nil
  show ?case using sa by simp
next
  case (snoc p ps)
  then obtain a where a: "for_each ps (\<lambda>p. ising_entry q (fst p) (snd p)) a0 = Inr a"
    "square n a"
    "\<forall>i<n. \<forall>j<n. a ! i ! j = (if (i, j) \<in> set ps then ising_value q i j else a0 ! i ! j)"
    by auto
  have p: "fst p < n" "snd p < n" using snoc.prems by simp_all
  let ?a' = "a[fst p := (a ! fst p)[snd p := ising_value q (fst p) (snd p)]]"
  have step: "ising_entry q (fst p) (snd p) a = Inr ?a'"
    by (rule ising_entry_step [OF sq a(2) p])
  have sq': "square n ?a'" by (rule square_update [OF a(2) p(1)])
  have ent: "\<forall>i<n. \<forall>j<n. ?a' ! i ! j =
      (if (i, j) \<in> set (ps @ [p]) then ising_value q i j else a0 ! i ! j)"
  proof (intro allI impI)
    fix i j assume ij: "i < n" "j < n"
    show "?a' ! i ! j = (if (i, j) \<in> set (ps @ [p]) then ising_value q i j else a0 ! i ! j)"
    proof (cases "(i, j) = p")
      case True
      then show ?thesis using ij a(2) by (auto simp: square_length square_rows)
    next
      case ne: False
      have "?a' ! i ! j = a ! i ! j"
      proof (cases "fst p = i")
        case True
        then have "snd p \<noteq> j" using ne by (cases p) auto
        then show ?thesis using True ij a(2) by (simp add: square_length)
      next
        case False
        then show ?thesis by simp
      qed
      then show ?thesis using a(3) ij ne by auto
    qed
  qed
  have "for_each (ps @ [p]) (\<lambda>p. ising_entry q (fst p) (snd p)) a0 = Inr ?a'"
    by (simp add: for_each_snoc a(1) step)
  then show ?case using sq' ent by blast
qed

lemma get_ising_matrix_entries:
  assumes "square n q"
  shows "\<exists>a. get_ising_matrix q = Inr a \<and> square n a
     \<and> (\<forall>i<n. \<forall>j<n. a ! i ! j = ising_value q i j)"
proof -
  have z: "square n (zeros_like q)"
    using assms by (auto simp: square_def zeros_like_def list_all_iff)
  obtain a where a: "for_each (List.product [0..<n] [0..<n])
        (\<lambda>p. ising_entry q (fst p) (snd p)) (zeros_like q) = Inr a" "square n a"
    "\<forall>i<n. \<forall>j<n. a ! i ! j =
       (if (i, j) \<in> set (List.product [0..<n] [0..<n]) then ising_value q i j
        else zeros_like q ! i ! j)"
    using ising_loop [OF assms z, of "List.product [0..<n] [0..<n]"] by auto
  have "get_ising_matrix q = Inr a"
    using assms a(1) by (simp add: get_ising_matrix_def Let_def square_length for_each_product)
  moreover have "\<forall>i<n. \<forall>j<n. a ! i ! j = ising_value q i j"
    using a(3) by simp
  ultimately show ?thesis using a(2) by blast
qed

end
